theory Spec2Isabelle
  imports Main "HOL-Library.Word" "HOL-Library.Monad_Syntax" "HOL-Library.AList"
begin

unbundle bit_operations_syntax

section \<open>Hash/Shard Router\<close>

text \<open>
  \<^verbatim>\<open>func hashBKRD(key string) (hash int32)\<close>: the loop over the bytes of the key, with the
  running hash as accumulator. \<open>int32\<close> arithmetic wraps, as \<open>32 word\<close> does; a byte
  \<open>key[i]\<close> converts to a value in \<open>0..255\<close>.
\<close>

fun hashBKRD_loop :: "string \<Rightarrow> 32 word \<Rightarrow> 32 word" where
  "hashBKRD_loop [] hash = hash"
| "hashBKRD_loop (c # cs) hash = hashBKRD_loop cs (hash * 131 + of_char c)"

definition hashBKRD :: "string \<Rightarrow> 32 word" where
  "hashBKRD key = hashBKRD_loop key 0"

text \<open>\<^verbatim>\<open>func maskOfNextPowOf2(cap uint16) uint16\<close>\<close>

definition maskOfNextPowOf2 :: "16 word \<Rightarrow> 16 word" where
  "maskOfNextPowOf2 cap =
     (if cap > 0 \<and> cap AND (cap - 1) = 0 then cap - 1
      else let c1 = cap OR drop_bit 1 cap;
               c2 = c1 OR drop_bit 2 c1;
               c3 = c2 OR drop_bit 4 c2
           in c3 OR drop_bit 8 c3)"

text \<open>
  The shard index of \<open>Get\<close>, \<open>SetWithExpiration\<close> and \<open>Delete\<close>:
  \<^verbatim>\<open>idx := hashBKRD(key) & s.mask\<close>, where \<open>s.mask\<close> is \<open>int32(mask)\<close> of the \<open>uint16\<close> mask.
\<close>

definition shard_index :: "string \<Rightarrow> 32 word \<Rightarrow> 32 word" where
  "shard_index key msk = hashBKRD key AND msk"

text \<open>
  The specification's \<open>next_power_of_two\<close>: the smallest power of two that is at least
  \<open>n\<close>, found by doubling from 1.
\<close>

function doubling_from :: "nat \<Rightarrow> nat \<Rightarrow> nat" where
  "doubling_from p n = (if n \<le> p \<or> p = 0 then p else doubling_from (2 * p) n)"
  by pat_completeness auto
termination
  by (relation "measure (\<lambda>(p, n). n - p)") auto

definition next_power_of_two :: "nat \<Rightarrow> nat" where
  "next_power_of_two n = doubling_from 1 n"


section \<open>Intrusive Slot Cache\<close>

text \<open>
  Slices: an access out of range panics, which is the value \<open>None\<close>. A panic anywhere
  in an operation makes the whole operation \<open>None\<close>.
\<close>

definition rd :: "'a list \<Rightarrow> nat \<Rightarrow> 'a option" where
  "rd xs i = (if i < length xs then Some (xs ! i) else None)"

definition wr :: "'a list \<Rightarrow> nat \<Rightarrow> 'a \<Rightarrow> 'a list option" where
  "wr xs i x = (if i < length xs then Some (xs[i := x]) else None)"

text \<open>
  Slot indices are \<open>uint16\<close>; they are natural numbers here, with the wrap-around written
  out where the source computes: \<open>idx - 1\<close> is \<open>dec16 idx\<close> (so \<open>0 - 1\<close> is 65535), and
  \<open>c.last++\<close> is \<open>inc16\<close>.
\<close>

definition dec16 :: "nat \<Rightarrow> nat" where
  "dec16 x = (x + 65535) mod 65536"

definition inc16 :: "nat \<Rightarrow> nat" where
  "inc16 x = (x + 1) mod 65536"

text \<open>
  \<^verbatim>\<open>const ( Head = 0; Tail = 1 )\<close> and \<^verbatim>\<open>var clock, p, n = time.Now().UnixNano(), uint16(0), uint16(1)\<close>:
  the second index of a \<open>[2]uint16\<close> link pair. The pair is \<open>(pair[0], pair[1])\<close>; the second
  index is one of these four constants everywhere in the source.
\<close>

definition Head :: nat where "Head = 0"
definition Tail :: nat where "Tail = 1"
definition p_ix :: nat where "p_ix = 0"
definition n_ix :: nat where "n_ix = 1"

definition at2 :: "nat \<times> nat \<Rightarrow> nat \<Rightarrow> nat" where
  "at2 pr j = (if j = 0 then fst pr else snd pr)"

definition set2 :: "nat \<times> nat \<Rightarrow> nat \<Rightarrow> nat \<Rightarrow> nat \<times> nat" where
  "set2 pr j x = (if j = 0 then (x, snd pr) else (fst pr, x))"

text \<open>\<open>c.dlnk[i][j]\<close> read and written.\<close>

definition rd2 :: "(nat \<times> nat) list \<Rightarrow> nat \<Rightarrow> nat \<Rightarrow> nat option" where
  "rd2 d i j = do { pr \<leftarrow> rd d i; Some (at2 pr j) }"

definition wr2 :: "(nat \<times> nat) list \<Rightarrow> nat \<Rightarrow> nat \<Rightarrow> nat \<Rightarrow> (nat \<times> nat) list option" where
  "wr2 d i j x = do { pr \<leftarrow> rd d i; wr d i (set2 pr j x) }"

text \<open>\<^verbatim>\<open>type node struct { k string; v Value; expireAt int64 }\<close>; a \<open>Value\<close> is an interface
  value, \<open>None\<close> when it is \<open>nil\<close>.\<close>

record 'v node =
  node_k :: string
  node_v :: "'v option"
  node_expireAt :: int

text \<open>\<^verbatim>\<open>type cache struct { dlnk [][2]uint16; m []node; hmap map[string]uint16; last uint16 }\<close>;
  \<open>hmap\<close> is an association list with distinct keys, so that \<open>len(c.hmap)\<close> is its length.\<close>

record 'v cache =
  c_dlnk :: "(nat \<times> nat) list"
  c_m :: "'v node list"
  c_hmap :: "(string \<times> nat) list"
  c_last :: nat

text \<open>The calls of the eviction callback that an operation makes, in order.\<close>

type_synonym 'v events = "(string \<times> 'v option) list"

text \<open>\<^verbatim>\<open>func Create(cap uint16) *cache\<close>: \<open>cap+1\<close> is computed in \<open>uint16\<close>.\<close>

definition Create :: "16 word \<Rightarrow> 'v cache" where
  "Create cap =
     \<lparr>c_dlnk = replicate (unat (cap + 1)) (0, 0),
      c_m = replicate (unat cap) \<lparr>node_k = [], node_v = None, node_expireAt = 0\<rparr>,
      c_hmap = [],
      c_last = 0\<rparr>"

text \<open>\<^verbatim>\<open>func (c *cache) adjust(idx, f, t uint16)\<close>; it reads and writes \<open>c.dlnk\<close> only.\<close>

definition cache_adjust :: "nat \<Rightarrow> nat \<Rightarrow> nat \<Rightarrow> (nat \<times> nat) list \<Rightarrow> (nat \<times> nat) list option" where
  "cache_adjust idx f t d0 =
     (if idx = 0 then Some d0
      else do {
        prev \<leftarrow> rd2 d0 idx p_ix;
        next \<leftarrow> rd2 d0 idx n_ix;
        d1 \<leftarrow> (if prev \<noteq> 0 then wr2 d0 prev n_ix next else Some d0);
        d2 \<leftarrow> (if next \<noteq> 0 then wr2 d1 next p_ix prev else Some d1);
        h2 \<leftarrow> rd2 d2 0 Head;
        d3 \<leftarrow> (if h2 = idx then wr2 d2 0 Head next else Some d2);
        t3 \<leftarrow> rd2 d3 0 Tail;
        d4 \<leftarrow> (if t3 = idx then wr2 d3 0 Tail prev else Some d3);
        if t = Head then do {
          d5 \<leftarrow> wr2 d4 idx p_ix 0;
          h5 \<leftarrow> rd2 d5 0 Head;
          d6 \<leftarrow> wr2 d5 idx n_ix h5;
          h6 \<leftarrow> rd2 d6 0 Head;
          d7 \<leftarrow> (if h6 \<noteq> 0 then wr2 d6 h6 p_ix idx else Some d6);
          wr2 d7 0 Head idx
        } else do {
          d5 \<leftarrow> wr2 d4 idx n_ix 0;
          t5 \<leftarrow> rd2 d5 0 Tail;
          d6 \<leftarrow> wr2 d5 idx p_ix t5;
          t6 \<leftarrow> rd2 d6 0 Tail;
          d7 \<leftarrow> (if t6 \<noteq> 0 then wr2 d6 t6 n_ix idx else Some d6);
          wr2 d7 0 Tail idx
        }
      })"

text \<open>
  \<^verbatim>\<open>func (c *cache) put(key string, val Value, expireAt int64, onEvicted func(string, Value)) int\<close>.
  \<open>onEvicted\<close> says whether the callback is non-nil; its calls are returned. In the full
  case \<open>c.dlnk[0][Tail]\<close> is read three times with no write to \<open>c.dlnk\<close> in between, so it
  is read once here.
\<close>

definition cache_put ::
  "string \<Rightarrow> 'v option \<Rightarrow> int \<Rightarrow> bool \<Rightarrow> 'v cache \<Rightarrow> (int \<times> 'v events \<times> 'v cache) option" where
  "cache_put key val expireAt onEvicted c =
     (case map_of (c_hmap c) key of
        Some idx \<Rightarrow> do {
          nd \<leftarrow> rd (c_m c) (dec16 idx);
          m' \<leftarrow> wr (c_m c) (dec16 idx) (nd\<lparr>node_v := val, node_expireAt := expireAt\<rparr>);
          d' \<leftarrow> cache_adjust idx Tail Head (c_dlnk c);
          Some (0, [], c\<lparr>c_m := m', c_dlnk := d'\<rparr>)
        }
      | None \<Rightarrow>
          if c_last c = length (c_m c) then do {
            t \<leftarrow> rd2 (c_dlnk c) 0 Tail;
            tail \<leftarrow> rd (c_m c) (dec16 t);
            m' \<leftarrow> wr (c_m c) (dec16 t) \<lparr>node_k = key, node_v = val, node_expireAt = expireAt\<rparr>;
            d' \<leftarrow> cache_adjust t Tail Head (c_dlnk c);
            Some (1,
                  (if onEvicted \<and> node_expireAt tail > 0 then [(node_k tail, node_v tail)] else []),
                  c\<lparr>c_hmap := AList.update key t (AList.delete (node_k tail) (c_hmap c)),
                    c_m := m', c_dlnk := d'\<rparr>)
          }
          else do {
            let lst = inc16 (c_last c);
            d1 \<leftarrow> (if length (c_hmap c) \<le> 0 then wr2 (c_dlnk c) 0 Tail lst
                   else do { h \<leftarrow> rd2 (c_dlnk c) 0 Head; wr2 (c_dlnk c) h p_ix lst });
            m' \<leftarrow> wr (c_m c) (dec16 lst) \<lparr>node_k = key, node_v = val, node_expireAt = expireAt\<rparr>;
            h1 \<leftarrow> rd2 d1 0 Head;
            d2 \<leftarrow> wr d1 lst (0, h1);
            h2 \<leftarrow> rd2 d2 0 Head;
            d3 \<leftarrow> (if h2 \<noteq> 0 then wr2 d2 h2 p_ix lst else Some d2);
            d4 \<leftarrow> wr2 d3 0 Head lst;
            t4 \<leftarrow> rd2 d4 0 Tail;
            d5 \<leftarrow> (if t4 = 0 then wr2 d4 0 Tail lst else Some d4);
            Some (1, [],
                  c\<lparr>c_last := lst, c_dlnk := d5, c_m := m',
                    c_hmap := AList.update key lst (c_hmap c)\<rparr>)
          })"

text \<open>\<^verbatim>\<open>func (c *cache) get(key string) (*node, int)\<close>; the node pointer is the node read
  at return, \<open>None\<close> for \<open>nil\<close>.\<close>

definition cache_get :: "string \<Rightarrow> 'v cache \<Rightarrow> ('v node option \<times> int \<times> 'v cache) option" where
  "cache_get key c =
     (case map_of (c_hmap c) key of
        Some idx \<Rightarrow> do {
          d' \<leftarrow> cache_adjust idx Tail Head (c_dlnk c);
          nd \<leftarrow> rd (c_m c) (dec16 idx);
          Some (Some nd, 1, c\<lparr>c_dlnk := d'\<rparr>)
        }
      | None \<Rightarrow> Some (None, 0, c))"

text \<open>\<^verbatim>\<open>func (c *cache) del(key string) (*node, int, int64)\<close>\<close>

definition cache_del :: "string \<Rightarrow> 'v cache \<Rightarrow> ('v node option \<times> int \<times> int \<times> 'v cache) option" where
  "cache_del key c =
     (case map_of (c_hmap c) key of
        Some idx \<Rightarrow> do {
          nd \<leftarrow> rd (c_m c) (dec16 idx);
          if node_expireAt nd > 0 then do {
            let e = node_expireAt nd;
            m' \<leftarrow> wr (c_m c) (dec16 idx) (nd\<lparr>node_expireAt := 0\<rparr>);
            d' \<leftarrow> cache_adjust idx Head Tail (c_dlnk c);
            nd' \<leftarrow> rd m' (dec16 idx);
            Some (Some nd', 1, e, c\<lparr>c_m := m', c_dlnk := d'\<rparr>)
          }
          else Some (None, 0, 0, c)
        }
      | None \<Rightarrow> Some (None, 0, 0, c))"

text \<open>
  \<^verbatim>\<open>func (c *cache) walk(walker func(key string, value Value, expireAt int64) bool)\<close>, for a
  walker that records the entry and returns true, as every walker of the source returns.
  The loop follows the next links from the head and need not end, so it runs on fuel:
  \<open>None\<close> is a panic or fuel used up.
\<close>

fun cache_walk_from :: "nat \<Rightarrow> nat \<Rightarrow> 'v cache \<Rightarrow> (string \<times> 'v option \<times> int) list option" where
  "cache_walk_from 0 idx c = (if idx = 0 then Some [] else None)"
| "cache_walk_from (Suc fuel) idx c =
     (if idx = 0 then Some []
      else do {
        nd \<leftarrow> rd (c_m c) (dec16 idx);
        nxt \<leftarrow> rd2 (c_dlnk c) idx n_ix;
        rest \<leftarrow> cache_walk_from fuel nxt c;
        Some (if node_expireAt nd > 0 then (node_k nd, node_v nd, node_expireAt nd) # rest else rest)
      })"

definition cache_walk :: "nat \<Rightarrow> 'v cache \<Rightarrow> (string \<times> 'v option \<times> int) list option" where
  "cache_walk fuel c = do { h \<leftarrow> rd2 (c_dlnk c) 0 Head; cache_walk_from fuel h c }"


section \<open>LRU-2 Engine\<close>

text \<open>
  \<^verbatim>\<open>type lru2Store struct { locks; caches [][2]*cache; onEvicted; cleanupTick; mask int32 }\<close>.
  A shard is the pair (tier 1, tier 2) of its two caches, which are distinct objects.
  The locks and the ticker are left out; \<open>l2_onEvicted\<close> says whether the callback is
  non-nil.
\<close>

record 'v lru2Store =
  l2_caches :: "('v cache \<times> 'v cache) list"
  l2_onEvicted :: bool
  l2_mask :: "32 word"

text \<open>\<^verbatim>\<open>type Options struct\<close>, without the cleanup interval.\<close>

record Options =
  MaxBytes :: int
  BucketCount :: "16 word"
  CapPerBucket :: "16 word"
  Level2Cap :: "16 word"
  OnEvicted :: bool

text \<open>\<^verbatim>\<open>func newLRU2Cache(opts Options) *lru2Store\<close>: \<open>mask+1\<close> is computed in \<open>uint16\<close>.\<close>

definition newLRU2Cache :: "Options \<Rightarrow> 'v lru2Store" where
  "newLRU2Cache opts0 =
     (let opts1 = (if BucketCount opts0 = 0 then opts0\<lparr>BucketCount := 16\<rparr> else opts0);
          opts2 = (if CapPerBucket opts1 = 0 then opts1\<lparr>CapPerBucket := 1024\<rparr> else opts1);
          opts = (if Level2Cap opts2 = 0 then opts2\<lparr>Level2Cap := 1024\<rparr> else opts2);
          msk = maskOfNextPowOf2 (BucketCount opts)
      in \<lparr>l2_caches = replicate (unat (msk + 1)) (Create (CapPerBucket opts), Create (Level2Cap opts)),
          l2_onEvicted = OnEvicted opts,
          l2_mask = ucast msk\<rparr>)"

text \<open>\<open>s.caches[idx]\<close> for \<^verbatim>\<open>idx := hashBKRD(key) & s.mask\<close>, an \<open>int32\<close>: a negative index
  panics as one beyond the length does.\<close>

definition shard_of :: "'v lru2Store \<Rightarrow> string \<Rightarrow> nat option" where
  "shard_of s key =
     (let idx = sint (shard_index key (l2_mask s))
      in if 0 \<le> idx \<and> nat idx < length (l2_caches s) then Some (nat idx) else None)"

text \<open>\<^verbatim>\<open>func (s *lru2Store) delete(key string, idx int32) bool\<close>\<close>

definition lru2_delete :: "string \<Rightarrow> nat \<Rightarrow> 'v lru2Store \<Rightarrow> (bool \<times> 'v events \<times> 'v lru2Store) option" where
  "lru2_delete key idx s = do {
     sh \<leftarrow> rd (l2_caches s) idx;
     (n1, s1, _, c0) \<leftarrow> cache_del key (fst sh);
     (n2, s2, _, c1) \<leftarrow> cache_del key (snd sh);
     let deleted = (s1 > 0 \<or> s2 > 0);
     Some (deleted,
           (if deleted \<and> l2_onEvicted s then
              (if n1 \<noteq> None \<and> node_v (the n1) \<noteq> None then [(key, node_v (the n1))]
               else if n2 \<noteq> None \<and> node_v (the n2) \<noteq> None then [(key, node_v (the n2))]
               else [])
            else []),
           s\<lparr>l2_caches := (l2_caches s)[idx := (c0, c1)]\<rparr>)
   }"

text \<open>
  \<^verbatim>\<open>func (s *lru2Store) _get(key string, idx, level int32) (*node, int)\<close>; \<open>now\<close> is the
  value that its call of \<open>Now()\<close> reads. \<open>level\<close> is 0 or 1.
\<close>

definition lru2_get ::
  "string \<Rightarrow> nat \<Rightarrow> nat \<Rightarrow> int \<Rightarrow> 'v lru2Store \<Rightarrow> ('v node option \<times> int \<times> 'v lru2Store) option" where
  "lru2_get key idx level now s = do {
     sh \<leftarrow> rd (l2_caches s) idx;
     (n, st, c) \<leftarrow> cache_get key (if level = 0 then fst sh else snd sh);
     let s' = s\<lparr>l2_caches := (l2_caches s)[idx := (if level = 0 then (c, snd sh) else (fst sh, c))]\<rparr>;
     if st > 0 \<and> n \<noteq> None then
       (let currentTime = now
        in if node_expireAt (the n) \<le> 0 \<or> currentTime \<ge> node_expireAt (the n)
           then Some (None, 0, s')
           else Some (n, st, s'))
     else Some (None, 0, s')
   }"

text \<open>
  \<^verbatim>\<open>func (s *lru2Store) Get(key string) (Value, bool)\<close>. \<open>now\<close> is what \<open>Now()\<close> reads at
  the top of \<open>Get\<close>, \<open>now2\<close> what it reads inside \<open>_get\<close>: another routine stores the
  clock, so the two reads are two inputs.
\<close>

definition lru2_Get ::
  "string \<Rightarrow> int \<Rightarrow> int \<Rightarrow> 'v lru2Store \<Rightarrow> (('v option \<times> bool) \<times> 'v events \<times> 'v lru2Store) option" where
  "lru2_Get key now now2 s = do {
     idx \<leftarrow> shard_of s key;
     let currentTime = now;
     sh \<leftarrow> rd (l2_caches s) idx;
     (n1, status1, expireAt, c0) \<leftarrow> cache_del key (fst sh);
     let s1 = s\<lparr>l2_caches := (l2_caches s)[idx := (c0, snd sh)]\<rparr>;
     if status1 > 0 then
       (if n1 = None then do {
          (_, ev, s2) \<leftarrow> lru2_delete key idx s1;
          Some ((None, False), ev, s2)
        }
        else if expireAt > 0 \<and> currentTime \<ge> expireAt then do {
          (_, ev, s2) \<leftarrow> lru2_delete key idx s1;
          Some ((None, False), ev, s2)
        }
        else do {
          (_, ev, c1) \<leftarrow> cache_put key (node_v (the n1)) expireAt (l2_onEvicted s1) (snd sh);
          Some ((node_v (the n1), True), ev, s1\<lparr>l2_caches := (l2_caches s1)[idx := (c0, c1)]\<rparr>)
        })
     else do {
       (n2, status2, s2) \<leftarrow> lru2_get key idx 1 now2 s1;
       if status2 > 0 \<and> n2 \<noteq> None then
         (if node_expireAt (the n2) > 0 \<and> currentTime \<ge> node_expireAt (the n2) then do {
            (_, ev, s3) \<leftarrow> lru2_delete key idx s2;
            Some ((None, False), ev, s3)
          }
          else Some ((node_v (the n2), True), [], s2))
       else Some ((None, False), [], s2)
     }
   }"

text \<open>\<open>int64\<close> addition wraps.\<close>

definition wrap64 :: "int \<Rightarrow> int" where
  "wrap64 x = (x + 2 ^ 63) mod 2 ^ 64 - 2 ^ 63"

text \<open>
  \<^verbatim>\<open>func (s *lru2Store) SetWithExpiration(key string, value Value, expiration time.Duration) error\<close>;
  \<open>expiration\<close> is in nanoseconds, \<open>now\<close> is what \<open>Now()\<close> reads. The error returned is
  always nil and is left out.
\<close>

definition lru2_SetWithExpiration ::
  "string \<Rightarrow> 'v option \<Rightarrow> int \<Rightarrow> int \<Rightarrow> 'v lru2Store \<Rightarrow> ('v events \<times> 'v lru2Store) option" where
  "lru2_SetWithExpiration key val expiration now s = do {
     let expireAt = (if expiration > 0 then wrap64 (now + expiration) else 0);
     idx \<leftarrow> shard_of s key;
     sh \<leftarrow> rd (l2_caches s) idx;
     (_, ev, c0) \<leftarrow> cache_put key val expireAt (l2_onEvicted s) (fst sh);
     Some (ev, s\<lparr>l2_caches := (l2_caches s)[idx := (c0, snd sh)]\<rparr>)
   }"

text \<open>\<^verbatim>\<open>func (s *lru2Store) Set(key string, value Value) error\<close>: the duration \<open>1e7\<close> is
  10000000 nanoseconds.\<close>

definition lru2_Set :: "string \<Rightarrow> 'v option \<Rightarrow> int \<Rightarrow> 'v lru2Store \<Rightarrow> ('v events \<times> 'v lru2Store) option" where
  "lru2_Set key val now s = lru2_SetWithExpiration key val 10000000 now s"

text \<open>\<^verbatim>\<open>func (s *lru2Store) Delete(key string) bool\<close>\<close>

definition lru2_Delete :: "string \<Rightarrow> 'v lru2Store \<Rightarrow> (bool \<times> 'v events \<times> 'v lru2Store) option" where
  "lru2_Delete key s = do { idx \<leftarrow> shard_of s key; lru2_delete key idx s }"

text \<open>
  A sequence of calls on one store, as a test drives it: each call with the clock values
  it reads, the replies and the callback's calls collected in order. \<open>None\<close> when a call
  panics.
\<close>

datatype 'v call =
    CallSet string "'v option" int
  | CallSetWithExpiration string "'v option" int int
  | CallGet string int int
  | CallDelete string

datatype 'v reply = NoReply | GetReply "'v option" bool | DeleteReply bool

fun lru2_call :: "'v call \<Rightarrow> 'v lru2Store \<Rightarrow> ('v reply \<times> 'v events \<times> 'v lru2Store) option" where
  "lru2_call (CallSet key val now) s =
     do { (ev, s') \<leftarrow> lru2_Set key val now s; Some (NoReply, ev, s') }"
| "lru2_call (CallSetWithExpiration key val expiration now) s =
     do { (ev, s') \<leftarrow> lru2_SetWithExpiration key val expiration now s; Some (NoReply, ev, s') }"
| "lru2_call (CallGet key now now2) s =
     do { ((v, ok), ev, s') \<leftarrow> lru2_Get key now now2 s; Some (GetReply v ok, ev, s') }"
| "lru2_call (CallDelete key) s =
     do { (b, ev, s') \<leftarrow> lru2_Delete key s; Some (DeleteReply b, ev, s') }"

fun lru2_run :: "'v call list \<Rightarrow> 'v lru2Store \<Rightarrow> ('v reply list \<times> 'v events \<times> 'v lru2Store) option" where
  "lru2_run [] s = Some ([], [], s)"
| "lru2_run (c # cs) s = do {
     (r, ev, s1) \<leftarrow> lru2_call c s;
     (rs, evs, s2) \<leftarrow> lru2_run cs s1;
     Some (r # rs, ev @ evs, s2)
   }"


section \<open>Single-Tier LRU Engine\<close>

text \<open>
  \<^verbatim>\<open>type lruCache struct { mu; list *list.List; items map[string]*list.Element;
  expires map[string]time.Time; maxBytes int64; usedBytes int64; onEvicted; ... }\<close>.
  \<open>lru_list\<close> holds the entries (key, value) of the list's elements, front first. An
  element is pushed only for a key that \<open>items\<close> lacks, and leaves \<open>items\<close> when it is
  removed, so an element is identified by the key of its entry and \<open>lru_items\<close> is the set
  of keys that have one. A time is its count of nanoseconds; \<open>expires\<close> is an association
  list with distinct keys, whose order means nothing.
\<close>

record 'v lruCache =
  lru_list :: "(string \<times> 'v) list"
  lru_items :: "string set"
  lru_expires :: "(string \<times> int) list"
  lru_maxBytes :: int
  lru_usedBytes :: int
  lru_onEvicted :: bool

text \<open>\<^verbatim>\<open>func newLRUCache(opts Options) *lruCache\<close>, without the ticker and its routine.\<close>

definition newLRUCache :: "Options \<Rightarrow> 'v lruCache" where
  "newLRUCache opts =
     \<lparr>lru_list = [], lru_items = {}, lru_expires = [],
      lru_maxBytes = MaxBytes opts, lru_usedBytes = 0, lru_onEvicted = OnEvicted opts\<rparr>"

text \<open>
  \<^verbatim>\<open>func (c *lruCache) removeElement(elem *list.Element)\<close>, for the element of \<open>key\<close>.
  \<open>vlen\<close> is the method \<open>Len()\<close> of the values.
\<close>

definition lru_removeElement ::
  "('v \<Rightarrow> int) \<Rightarrow> string \<Rightarrow> 'v lruCache \<Rightarrow> ('v events \<times> 'v lruCache) option" where
  "lru_removeElement vlen key c = do {
     value \<leftarrow> map_of (lru_list c) key;
     Some ((if lru_onEvicted c then [(key, Some value)] else []),
           c\<lparr>lru_list := AList.delete key (lru_list c),
             lru_items := lru_items c - {key},
             lru_expires := AList.delete key (lru_expires c),
             lru_usedBytes := lru_usedBytes c - (int (length key) + vlen value)\<rparr>)
   }"

text \<open>
  The first loop of \<open>evict\<close>: \<^verbatim>\<open>for key, expTime := range c.expires\<close>. The order in
  which a map is ranged over is not specified, so it is an input: \<open>order\<close> lists the keys
  of \<open>expires\<close>, each once, in the order the loop reaches them. A key that has left
  \<open>expires\<close> when the loop reaches it is not produced; \<open>now.After(expTime)\<close> is
  \<open>now > expTime\<close>.
\<close>

fun lru_evict_expired ::
  "('v \<Rightarrow> int) \<Rightarrow> int \<Rightarrow> string list \<Rightarrow> 'v lruCache \<Rightarrow> ('v events \<times> 'v lruCache) option" where
  "lru_evict_expired vlen now [] c = Some ([], c)"
| "lru_evict_expired vlen now (key # rest) c =
     (case map_of (lru_expires c) key of
        None \<Rightarrow> lru_evict_expired vlen now rest c
      | Some expTime \<Rightarrow>
          if now > expTime \<and> key \<in> lru_items c then do {
            (e1, c1) \<leftarrow> lru_removeElement vlen key c;
            (e2, c2) \<leftarrow> lru_evict_expired vlen now rest c1;
            Some (e1 @ e2, c2)
          }
          else lru_evict_expired vlen now rest c)"

text \<open>\<open>c.list.Front()\<close> and \<open>c.list.Back()\<close>: the key of the element, \<open>None\<close> for nil.\<close>

definition lru_Front :: "'v lruCache \<Rightarrow> string option" where
  "lru_Front c = (case lru_list c of [] \<Rightarrow> None | e # _ \<Rightarrow> Some (fst e))"

definition lru_Back :: "'v lruCache \<Rightarrow> string option" where
  "lru_Back c = (if lru_list c = [] then None else Some (fst (last (lru_list c))))"

text \<open>
  The second loop of \<open>evict\<close>:
  \<^verbatim>\<open>for c.maxBytes > 0 && c.usedBytes > c.maxBytes && c.list.Len() > 0 {
      elem := c.list.Back(); if elem != nil { c.removeElement(c.list.Front()) } }\<close>.
  Each round removes an element, so the list gets shorter.
\<close>

function lru_evict_budget :: "('v \<Rightarrow> int) \<Rightarrow> 'v lruCache \<Rightarrow> ('v events \<times> 'v lruCache) option" where
  "lru_evict_budget vlen c =
     (if lru_maxBytes c > 0 \<and> lru_usedBytes c > lru_maxBytes c \<and> length (lru_list c) > 0 then
        (case lru_Back c of
           None \<Rightarrow> None
         | Some elem \<Rightarrow>
             (case lru_Front c of
                None \<Rightarrow> None
              | Some front \<Rightarrow>
                  (case lru_removeElement vlen front c of
                     None \<Rightarrow> None
                   | Some (e1, c1) \<Rightarrow>
                       (case lru_evict_budget vlen c1 of
                          None \<Rightarrow> None
                        | Some (e2, c2) \<Rightarrow> Some (e1 @ e2, c2)))))
      else Some ([], c))"
  by pat_completeness auto
termination
proof (relation "measure (\<lambda>(vlen, c). length (lru_list c))")
  show "wf (measure (\<lambda>(vlen, c). length (lru_list c)))" by simp
next
  fix vlen :: "'v \<Rightarrow> int" and c :: "'v lruCache" and elem front x and e1 :: "'v events" and c1 :: "'v lruCache"
  assume f: "lru_Front c = Some front" and r: "lru_removeElement vlen front c = Some x" and x: "(e1, c1) = x"
  from f obtain v rest where l: "lru_list c = (front, v) # rest"
    by (cases "lru_list c") (auto simp: lru_Front_def)
  from r x have "lru_list c1 = AList.delete front (lru_list c)"
    by (auto simp: lru_removeElement_def bind_eq_Some_conv)
  then have "length (lru_list c1) \<le> length rest"
    using l by (simp add: AList.delete_eq)
  then show "((vlen, c1), (vlen, c)) \<in> measure (\<lambda>(vlen, c). length (lru_list c))"
    using l by simp
qed

text \<open>\<^verbatim>\<open>func (c *lruCache) evict()\<close>; \<open>now\<close> is what \<open>time.Now()\<close> reads, \<open>order\<close> the
  order in which its first loop ranges over \<open>expires\<close>.\<close>

definition lru_evict ::
  "('v \<Rightarrow> int) \<Rightarrow> int \<Rightarrow> string list \<Rightarrow> 'v lruCache \<Rightarrow> ('v events \<times> 'v lruCache) option" where
  "lru_evict vlen now order c = do {
     (e1, c1) \<leftarrow> lru_evict_expired vlen now order c;
     (e2, c2) \<leftarrow> lru_evict_budget vlen c1;
     Some (e1 @ e2, c2)
   }"

text \<open>\<^verbatim>\<open>func (c *lruCache) Delete(key string) bool\<close>\<close>

definition lru_Delete :: "('v \<Rightarrow> int) \<Rightarrow> string \<Rightarrow> 'v lruCache \<Rightarrow> (bool \<times> 'v events \<times> 'v lruCache) option" where
  "lru_Delete vlen key c =
     (if key \<in> lru_items c then do {
        (ev, c') \<leftarrow> lru_removeElement vlen key c;
        Some (True, ev, c')
      }
      else Some (False, [], c))"

text \<open>
  \<^verbatim>\<open>func (c *lruCache) SetWithExpiration(key string, value Value, expiration time.Duration) error\<close>;
  \<open>now\<close> is what \<open>time.Now()\<close> reads here, \<open>now2\<close> what it reads in \<open>evict\<close>, \<open>order\<close>
  the order in which \<open>evict\<close> ranges over \<open>expires\<close>. Moving an element to the front keeps
  its entry, with the value just stored.
\<close>

definition lru_SetWithExpiration ::
  "('v \<Rightarrow> int) \<Rightarrow> string \<Rightarrow> 'v option \<Rightarrow> int \<Rightarrow> int \<Rightarrow> int \<Rightarrow> string list \<Rightarrow> 'v lruCache
     \<Rightarrow> ('v events \<times> 'v lruCache) option" where
  "lru_SetWithExpiration vlen key val expiration now now2 order c =
     (case val of
        None \<Rightarrow> do { (_, ev, c') \<leftarrow> lru_Delete vlen key c; Some (ev, c') }
      | Some value \<Rightarrow>
          (let c1 = (if expiration > 0
                     then c\<lparr>lru_expires := AList.update key (now + expiration) (lru_expires c)\<rparr>
                     else c\<lparr>lru_expires := AList.delete key (lru_expires c)\<rparr>)
           in if key \<in> lru_items c1 then do {
                old \<leftarrow> map_of (lru_list c1) key;
                Some ([], c1\<lparr>lru_usedBytes := lru_usedBytes c1 + (vlen value - vlen old),
                            lru_list := (key, value) # AList.delete key (lru_list c1)\<rparr>)
              }
              else lru_evict vlen now2 order
                     (c1\<lparr>lru_list := (key, value) # lru_list c1,
                        lru_items := insert key (lru_items c1),
                        lru_usedBytes := lru_usedBytes c1 + (int (length key) + vlen value)\<rparr>)))"

text \<open>\<^verbatim>\<open>func (c *lruCache) Set(key string, value Value) error\<close>\<close>

definition lru_Set ::
  "('v \<Rightarrow> int) \<Rightarrow> string \<Rightarrow> 'v option \<Rightarrow> int \<Rightarrow> int \<Rightarrow> string list \<Rightarrow> 'v lruCache
     \<Rightarrow> ('v events \<times> 'v lruCache) option" where
  "lru_Set vlen key val now now2 order c = lru_SetWithExpiration vlen key val 0 now now2 order c"

section \<open>Clock Service\<close>

text \<open>
  \<open>time.Millisecond\<close> and \<open>time.Microsecond\<close>, in nanoseconds; the duration that the
  sampling routine sleeps between its steps, and the amount it adds to the clock after
  each of the nine sleeps: \<^verbatim>\<open>time.Sleep(time.Millisecond * 100)\<close> and
  \<^verbatim>\<open>atomic.AddInt64(&clock, int64(100*time.Microsecond))\<close>.
\<close>

definition Millisecond :: int where "Millisecond = 1000000"
definition Microsecond :: int where "Microsecond = 1000"

definition tick_sleep :: int where "tick_sleep = Millisecond * 100"
definition tick_increment :: int where "tick_increment = 100 * Microsecond"

text \<open>
  The routine of \<open>init\<close> against the wall clock: \<open>clk_clock\<close> is the variable \<open>clock\<close>
  that \<open>Now()\<close> loads, \<open>clk_wall\<close> the time \<open>time.Now().UnixNano()\<close> would return. A sleep
  lasts at least its duration; \<open>extra\<close> is what it lasts longer.
\<close>

record clock_state =
  clk_clock :: int
  clk_wall :: int

definition Now :: "clock_state \<Rightarrow> int" where
  "Now w = clk_clock w"

definition clock_sample :: "clock_state \<Rightarrow> clock_state" where
  "clock_sample w = w\<lparr>clk_clock := clk_wall w\<rparr>"

definition clock_sleep :: "int \<Rightarrow> clock_state \<Rightarrow> clock_state" where
  "clock_sleep extra w = w\<lparr>clk_wall := clk_wall w + tick_sleep + extra\<rparr>"

definition clock_tick :: "int \<Rightarrow> clock_state \<Rightarrow> clock_state" where
  "clock_tick extra w = (let w1 = clock_sleep extra w in w1\<lparr>clk_clock := wrap64 (clk_clock w1 + tick_increment)\<rparr>)"

text \<open>The inner loop \<^verbatim>\<open>for i := 0; i < 9; i++\<close>, run for the given sleeps.\<close>

fun clock_ticks :: "int list \<Rightarrow> clock_state \<Rightarrow> clock_state" where
  "clock_ticks [] w = w"
| "clock_ticks (extra # extras) w = clock_ticks extras (clock_tick extra w)"


section \<open>Live entries and well-formed states\<close>

text \<open>
  The entry that \<open>del\<close> finds for a key: the key is in \<open>hmap\<close> and its slot has
  \<open>expireAt > 0\<close>; a slot with \<open>expireAt = 0\<close> is a tombstone.
\<close>

definition cache_live :: "'v cache \<Rightarrow> string \<Rightarrow> 'v node option" where
  "cache_live c key =
     (case map_of (c_hmap c) key of
        None \<Rightarrow> None
      | Some idx \<Rightarrow>
          (case rd (c_m c) (dec16 idx) of
             None \<Rightarrow> None
           | Some nd \<Rightarrow> if node_expireAt nd > 0 then Some nd else None))"

text \<open>Every link of the table is an index of the table.\<close>

definition links_ok :: "(nat \<times> nat) list \<Rightarrow> bool" where
  "links_ok d = (d \<noteq> [] \<and> list_all (\<lambda>pr. fst pr < length d \<and> snd pr < length d) d)"

text \<open>
  What \<open>Create\<close> sets up for a capacity below 65535 and every operation keeps: the link
  table has one pair more than there are slots, \<open>last\<close> is at most the capacity, the
  links are indices of the table, and \<open>hmap\<close> sends each of its keys to a used slot that
  holds that key. It does not say that the links form a list.
\<close>

definition cache_wf :: "'v cache \<Rightarrow> bool" where
  "cache_wf c =
     (length (c_dlnk c) = length (c_m c) + 1 \<and> length (c_m c) < 65535
      \<and> c_last c \<le> length (c_m c)
      \<and> links_ok (c_dlnk c)
      \<and> distinct (map fst (c_hmap c))
      \<and> list_all (\<lambda>(k, idx). 0 < idx \<and> idx \<le> c_last c \<and> node_k (c_m c ! (idx - 1)) = k) (c_hmap c))"

text \<open>The states in which \<open>put\<close> of a key does not index slot \<open>0 - 1\<close>: the key is
  present, or a fresh slot is left, or the tail link of the sentinel is not 0.\<close>

definition put_ready :: "'v cache \<Rightarrow> string \<Rightarrow> bool" where
  "put_ready c key =
     (map_of (c_hmap c) key \<noteq> None \<or> c_last c \<noteq> length (c_m c) \<or> at2 (c_dlnk c ! 0) Tail \<noteq> 0)"

definition store_wf :: "'v lru2Store \<Rightarrow> bool" where
  "store_wf s =
     (0 \<le> sint (l2_mask s) \<and> length (l2_caches s) = nat (sint (l2_mask s)) + 1
      \<and> list_all (\<lambda>sh. cache_wf (fst sh) \<and> cache_wf (snd sh)) (l2_caches s))"

section \<open>Scenarios\<close>

text \<open>The stores and tiers that the scenarios below start from and pass through.\<close>

definition opts_1_2_2 :: Options where
  "opts_1_2_2 = \<lparr>MaxBytes = 0, BucketCount = 1, CapPerBucket = 2, Level2Cap = 2, OnEvicted = True\<rparr>"

definition opts_1_2_1 :: Options where
  "opts_1_2_1 = \<lparr>MaxBytes = 0, BucketCount = 1, CapPerBucket = 2, Level2Cap = 1, OnEvicted = True\<rparr>"

definition opts_lru_10 :: Options where
  "opts_lru_10 = \<lparr>MaxBytes = 10, BucketCount = 0, CapPerBucket = 0, Level2Cap = 0, OnEvicted = True\<rparr>"

text \<open>The store after
  \<open>Set(a,1); Get(a); Get(a); Set(b,2); Get(b); Get(b); Set(c,3)\<close>, all at clock 100.\<close>

definition store_a_b_promoted_c_set :: "nat lru2Store" where
  "store_a_b_promoted_c_set =
     \<lparr>l2_caches =
        [(\<lparr>c_dlnk = [(2, 1), (0, 0), (0, 0)],
           c_m = [\<lparr>node_k = ''a'', node_v = Some 1, node_expireAt = 0\<rparr>,
                  \<lparr>node_k = ''c'', node_v = Some 3, node_expireAt = 10000100\<rparr>],
           c_hmap = [(''a'', 1), (''c'', 2)], c_last = 2\<rparr>,
          \<lparr>c_dlnk = [(2, 0), (2, 0), (0, 1)],
           c_m = [\<lparr>node_k = ''a'', node_v = Some 1, node_expireAt = 10000100\<rparr>,
                  \<lparr>node_k = ''b'', node_v = Some 2, node_expireAt = 10000100\<rparr>],
           c_hmap = [(''a'', 1), (''b'', 2)], c_last = 2\<rparr>)],
      l2_onEvicted = True, l2_mask = 0\<rparr>"

text \<open>With tier-2 capacity 1, the store after \<open>Set(a,1); Get(a); Set(b,2); Get(b); Set(c,3)\<close>,
  all at clock 100.\<close>

definition store_cap1_b_promoted_c_set :: "nat lru2Store" where
  "store_cap1_b_promoted_c_set =
     \<lparr>l2_caches =
        [(\<lparr>c_dlnk = [(2, 1), (0, 0), (0, 0)],
           c_m = [\<lparr>node_k = ''a'', node_v = Some 1, node_expireAt = 0\<rparr>,
                  \<lparr>node_k = ''c'', node_v = Some 3, node_expireAt = 10000100\<rparr>],
           c_hmap = [(''a'', 1), (''c'', 2)], c_last = 2\<rparr>,
          \<lparr>c_dlnk = [(1, 0), (0, 0)],
           c_m = [\<lparr>node_k = ''b'', node_v = Some 2, node_expireAt = 10000100\<rparr>],
           c_hmap = [(''b'', 1)], c_last = 1\<rparr>)],
      l2_onEvicted = True, l2_mask = 0\<rparr>"

text \<open>The store after \<open>Set(a,1); Get(a)\<close> at clock 100: \<open>a\<close> is a tombstone in tier 1 and
  live in tier 2, expiring at 10000100.\<close>

definition store_a_promoted :: "nat lru2Store" where
  "store_a_promoted =
     \<lparr>l2_caches =
        [(\<lparr>c_dlnk = [(0, 1), (0, 0), (0, 0)],
           c_m = [\<lparr>node_k = ''a'', node_v = Some 1, node_expireAt = 0\<rparr>,
                  \<lparr>node_k = [], node_v = None, node_expireAt = 0\<rparr>],
           c_hmap = [(''a'', 1)], c_last = 1\<rparr>,
          \<lparr>c_dlnk = [(1, 1), (0, 0), (0, 0)],
           c_m = [\<lparr>node_k = ''a'', node_v = Some 1, node_expireAt = 10000100\<rparr>,
                  \<lparr>node_k = [], node_v = None, node_expireAt = 0\<rparr>],
           c_hmap = [(''a'', 1)], c_last = 1\<rparr>)],
      l2_onEvicted = True, l2_mask = 0\<rparr>"

text \<open>The store after \<open>Set(a,1); Set(a,1); Set(b,2); Set(b,2)\<close>, all at clock 100: tier 1 is
  full and the tail link of its sentinel is 0.\<close>

definition store_a_a_b_b_set :: "nat lru2Store" where
  "store_a_a_b_b_set =
     \<lparr>l2_caches =
        [(\<lparr>c_dlnk = [(2, 0), (2, 0), (0, 1)],
           c_m = [\<lparr>node_k = ''a'', node_v = Some 1, node_expireAt = 10000100\<rparr>,
                  \<lparr>node_k = ''b'', node_v = Some 2, node_expireAt = 10000100\<rparr>],
           c_hmap = [(''a'', 1), (''b'', 2)], c_last = 2\<rparr>,
          \<lparr>c_dlnk = [(0, 0), (0, 0), (0, 0)],
           c_m = [\<lparr>node_k = [], node_v = None, node_expireAt = 0\<rparr>,
                  \<lparr>node_k = [], node_v = None, node_expireAt = 0\<rparr>],
           c_hmap = [], c_last = 0\<rparr>)],
      l2_onEvicted = True, l2_mask = 0\<rparr>"

text \<open>The store after \<open>SetWithExpiration(a,1,0)\<close>, before and after \<open>Delete(a)\<close>: the slot of
  \<open>a\<close> holds the value with \<open>expireAt = 0\<close>.\<close>

definition store_a_ttl_zero :: "nat lru2Store" where
  "store_a_ttl_zero =
     \<lparr>l2_caches =
        [(\<lparr>c_dlnk = [(1, 1), (0, 0), (0, 0)],
           c_m = [\<lparr>node_k = ''a'', node_v = Some 1, node_expireAt = 0\<rparr>,
                  \<lparr>node_k = [], node_v = None, node_expireAt = 0\<rparr>],
           c_hmap = [(''a'', 1)], c_last = 1\<rparr>,
          \<lparr>c_dlnk = [(0, 0), (0, 0), (0, 0)],
           c_m = [\<lparr>node_k = [], node_v = None, node_expireAt = 0\<rparr>,
                  \<lparr>node_k = [], node_v = None, node_expireAt = 0\<rparr>],
           c_hmap = [], c_last = 0\<rparr>)],
      l2_onEvicted = True, l2_mask = 0\<rparr>"

text \<open>Options with 40000 buckets.\<close>

definition opts_40000_2_2 :: Options where
  "opts_40000_2_2 =
     \<lparr>MaxBytes = 0, BucketCount = 40000, CapPerBucket = 2, Level2Cap = 2, OnEvicted = True\<rparr>"

text \<open>A tier of capacity 1 after \<open>put(a,1)\<close> and \<open>put(b,2)\<close>, both with expiry 5.\<close>

definition tier_cap1_after_a_b :: "nat cache" where
  "tier_cap1_after_a_b =
     \<lparr>c_dlnk = [(1, 0), (0, 0)],
      c_m = [\<lparr>node_k = ''b'', node_v = Some 2, node_expireAt = 5\<rparr>],
      c_hmap = [(''b'', 1)], c_last = 1\<rparr>"

text \<open>The length of a byte string, as its \<open>Len()\<close>.\<close>

definition string_Len :: "string \<Rightarrow> int" where
  "string_Len v = int (length v)"

section \<open>The hash and the mask\<close>

lemma hashBKRD_loop_snoc: "hashBKRD_loop (xs @ [c]) h = hashBKRD_loop xs h * 131 + of_char c"
  by (induction xs arbitrary: h) auto

lemma and_pred_nat: "0 < n \<Longrightarrow> (n AND (n - 1) = 0) = (\<exists>k. n = 2 ^ k)" for n :: nat
proof (induction n rule: less_induct)
  case (less n)
  show ?case
  proof (cases "even n")
    case True
    then obtain m where m: "n = 2 * m" by (elim evenE)
    with less.prems have m0: "0 < m" by simp
    have "n - 1 = 2 * (m - 1) + 1" using m m0 by simp
    then have "n AND (n - 1) = 2 * (m AND (m - 1))"
      using m by (subst and_rec) simp
    moreover have "(\<exists>k. n = 2 ^ k) = (\<exists>k. m = 2 ^ k)"
    proof
      assume "\<exists>k. n = 2 ^ k"
      then obtain k where k: "n = 2 ^ k" ..
      with m m0 have "k \<noteq> 0" by (cases k) auto
      then obtain j where "k = Suc j" by (cases k) auto
      with k m show "\<exists>k. m = 2 ^ k" by auto
    next
      assume "\<exists>k. m = 2 ^ k"
      then obtain k where "m = 2 ^ k" ..
      with m have "n = 2 ^ Suc k" by simp
      then show "\<exists>k. n = 2 ^ k" ..
    qed
    moreover have "(m AND (m - 1) = 0) = (\<exists>k. m = 2 ^ k)"
      using less.IH [of m] m m0 by simp
    ultimately show ?thesis by simp
  next
    case False
    then obtain m where m: "n = 2 * m + 1" by (elim oddE)
    have "n AND (n - 1) = 2 * m"
      using m by (subst and_rec) simp
    moreover have "(\<exists>k. n = 2 ^ k) = (m = 0)"
    proof
      assume "\<exists>k. n = 2 ^ k"
      then obtain k where k: "n = 2 ^ k" ..
      show "m = 0"
      proof (cases k)
        case 0 with k m show ?thesis by simp
      next
        case (Suc j) with k have "even n" by simp
        with False show ?thesis by simp
      qed
    next
      assume "m = 0" with m have "n = 2 ^ 0" by simp
      then show "\<exists>k. n = 2 ^ k" ..
    qed
    ultimately show ?thesis by simp
  qed
qed

lemma and_pred_word: 
  fixes w :: "16 word"
  assumes "0 < w" shows "(w AND (w - 1) = 0) = (\<exists>k. unat w = 2 ^ k)"
proof -
  have w0: "w \<noteq> 0" using assms by auto
  have "(w AND (w - 1) = 0) = (unat (w AND (w - 1)) = 0)" by (simp add: unat_0_iff)
  also have "unat (w AND (w - 1)) = unat w AND (unat w - 1)"
    using w0 by (simp add: unsigned_and_eq unat_minus_one)
  also have "(unat w AND (unat w - 1) = 0) = (\<exists>k. unat w = 2 ^ k)"
    using w0 by (intro and_pred_nat) (simp add: unat_gt_0)
  finally show ?thesis .
qed

lemma hash_step_signed: "sint (a * 131 + of_char c :: 32 word) = signed_take_bit 31 (sint a * 131 + of_char c)"
proof -
  have "a * 131 + of_char c = (word_of_int (sint a * 131 + of_char c) :: 32 word)"
    by (simp add: of_int_of_char)
  then have "sint (a * 131 + of_char c :: 32 word) = sint (word_of_int (sint a * 131 + of_char c) :: 32 word)"
    by simp
  also have "\<dots> = signed_take_bit 31 (sint a * 131 + of_char c)"
    by (simp only: signed_of_int) simp
  finally show ?thesis .
qed

lemma smear_step:
  fixes c n :: "16 word"
  assumes "\<And>i. bit c i = (\<exists>j. i \<le> j \<and> j < i + w \<and> bit n j)"
  shows "bit (c OR drop_bit w c) i = (\<exists>j. i \<le> j \<and> j < i + 2 * w \<and> bit n j)"
proof -
  have "bit (c OR drop_bit w c) i = (bit c i \<or> bit c (w + i))"
    by (simp add: bit_or_iff bit_drop_bit_eq)
  also have "\<dots> = ((\<exists>j. i \<le> j \<and> j < i + w \<and> bit n j) \<or> (\<exists>j. w + i \<le> j \<and> j < w + i + w \<and> bit n j))"
    by (simp only: assms)
  also have "\<dots> = (\<exists>j. i \<le> j \<and> j < i + 2 * w \<and> bit n j)"
  proof
    assume "(\<exists>j. i \<le> j \<and> j < i + w \<and> bit n j) \<or> (\<exists>j. w + i \<le> j \<and> j < w + i + w \<and> bit n j)"
    then show "\<exists>j. i \<le> j \<and> j < i + 2 * w \<and> bit n j"
      by (elim disjE exE) (rule_tac x = j in exI, simp)+
  next
    assume "\<exists>j. i \<le> j \<and> j < i + 2 * w \<and> bit n j"
    then obtain j where j: "i \<le> j" "j < i + 2 * w" "bit n j" by blast
    show "(\<exists>j. i \<le> j \<and> j < i + w \<and> bit n j) \<or> (\<exists>j. w + i \<le> j \<and> j < w + i + w \<and> bit n j)"
    proof (cases "j < i + w")
      case True with j show ?thesis by blast
    next
      case False 
      with j have "w + i \<le> j \<and> j < w + i + w \<and> bit n j" by simp
      then show ?thesis by blast
    qed
  qed
  finally show ?thesis .
qed

lemma smear_bits_aux:
  fixes n :: "16 word"
  assumes "c1 = n OR drop_bit 1 n"
  assumes "c2 = c1 OR drop_bit 2 c1"
  assumes "c3 = c2 OR drop_bit 4 c2"
  shows "bit (c3 OR drop_bit 8 c3) i = (\<exists>j. i \<le> j \<and> bit n j)"
proof -
  have b0: "\<And>i. bit n i = (\<exists>j. i \<le> j \<and> j < i + 1 \<and> bit n j)"
    by (auto simp: less_Suc_eq_le)
  have b1: "\<And>i. bit c1 i = (\<exists>j. i \<le> j \<and> j < i + 2 \<and> bit n j)"
    unfolding assms(1) using smear_step [of n 1 n, OF b0] by simp
  have b2: "\<And>i. bit c2 i = (\<exists>j. i \<le> j \<and> j < i + 4 \<and> bit n j)"
    unfolding assms(2) using smear_step [of c1 2 n, OF b1] by simp
  have b3: "\<And>i. bit c3 i = (\<exists>j. i \<le> j \<and> j < i + 8 \<and> bit n j)"
    unfolding assms(3) using smear_step [of c2 4 n, OF b2] by simp
  have "bit (c3 OR drop_bit 8 c3) i = (\<exists>j. i \<le> j \<and> j < i + 16 \<and> bit n j)"
    using smear_step [of c3 8 n, OF b3] by simp
  also have "\<dots> = (\<exists>j. i \<le> j \<and> bit n j)"
  proof
    assume "\<exists>j. i \<le> j \<and> bit n j"
    then obtain j where j: "i \<le> j" "bit n j" by blast
    from j(2) have "j < 16" using bit_imp_le_length [of n j] by simp
    with j show "\<exists>j. i \<le> j \<and> j < i + 16 \<and> bit n j" by auto
  qed blast
  finally show ?thesis .
qed

lemma smear_bits:
  fixes n :: "16 word"
  shows "bit (let c1 = n OR drop_bit 1 n; c2 = c1 OR drop_bit 2 c1; c3 = c2 OR drop_bit 4 c2
          in c3 OR drop_bit 8 c3) i = (\<exists>j. i \<le> j \<and> bit n j)"
  unfolding Let_def by (rule smear_bits_aux) (rule refl)+

lemma smear_mask:
  fixes n :: "16 word"
  assumes lo: "2 ^ k \<le> unat n" and hi: "unat n < 2 ^ Suc k"
  shows "(let c1 = n OR drop_bit 1 n; c2 = c1 OR drop_bit 2 c1; c3 = c2 OR drop_bit 4 c2
          in c3 OR drop_bit 8 c3) = mask (Suc k)"
proof -
  have up: "\<not> bit n j" if "k < j" for j
  proof
    assume "bit n j"
    then have "bit (unat n) j" by (simp add: bit_unsigned_iff)
    moreover have "take_bit (Suc k) (unat n) = unat n" using hi by (simp add: take_bit_nat_eq_self)
    ultimately have "bit (take_bit (Suc k) (unat n)) j" by simp
    then have "j < Suc k" by (simp only: bit_take_bit_iff)
    with that show False by simp
  qed
  have top: "bit n k"
  proof (rule ccontr)
    assume "\<not> bit n k"
    with up have "\<And>j. k \<le> j \<Longrightarrow> \<not> bit n j" by (metis le_neq_implies_less)
    then have "\<And>j. bit n j \<Longrightarrow> j < k" by (meson not_le)
    then have "take_bit k n = n"
      by (intro bit_eqI) (auto simp: bit_take_bit_iff)
    then have "unat n = take_bit k (unat n)"
      by (metis unsigned_take_bit_eq)
    then have "unat n < 2 ^ k" by (metis take_bit_nat_less_exp)
    with lo show False by simp
  qed
  have high: "(\<exists>j. i \<le> j \<and> bit n j) = (i \<le> k)" for i
  proof
    assume "\<exists>j. i \<le> j \<and> bit n j"
    then obtain j where j: "i \<le> j" "bit n j" by blast
    from j(2) up [of j] have "j \<le> k" by (cases "k < j") auto
    with j(1) show "i \<le> k" by simp
  next
    assume "i \<le> k" with top show "\<exists>j. i \<le> j \<and> bit n j" by blast
  qed
  from top have k16: "k < 16" using bit_imp_le_length [of n k] by simp
  show ?thesis
  proof (rule bit_eqI)
    fix i
    show "bit (let c1 = n OR drop_bit 1 n; c2 = c1 OR drop_bit 2 c1; c3 = c2 OR drop_bit 4 c2
          in c3 OR drop_bit 8 c3) i
          = bit (mask (Suc k) :: 16 word) i"
      using k16 by (simp only: smear_bits high bit_mask_iff) auto
  qed
qed

lemma unat_mask16: "j < 15 \<Longrightarrow> unat (mask (Suc j) :: 16 word) = 2 ^ Suc j - 1"
proof -
  assume j: "j < 15"
  have h: "uint (mask (Suc j) :: 16 word) = mask (Suc j)" using j by (simp add: uint_mask_eq min_def)
  have "unat (mask (Suc j) :: 16 word) = nat (uint (mask (Suc j) :: 16 word))" by (rule unat_eq_nat_uint)
  also have "\<dots> = nat (mask (Suc j))" by (simp only: h)
  also have "\<dots> = nat (2 ^ Suc j - 1)" by (simp only: mask_eq_exp_minus_1)
  also have "(2::int) ^ Suc j - 1 = int (2 ^ Suc j - 1)" by (simp add: of_nat_diff)
  also have "nat (int (2 ^ Suc j - 1)) = 2 ^ Suc j - 1" by (rule nat_int)
  finally show ?thesis .
qed

lemma sint_small: "uint (x::32 word) \<le> uint (M::32 word) \<Longrightarrow> uint M < 2 ^ 16 \<Longrightarrow> sint x = uint x"
proof -
  assume a: "uint x \<le> uint M" "uint M < 2 ^ 16"
  have p: "(2::int) ^ 31 = 2147483648" by simp
  have "- (2 ^ 31) \<le> uint x" using uint_ge_0 [of x] unfolding p by linarith
  moreover have "uint x < 2 ^ 31" using a unfolding p by simp
  ultimately have "signed_take_bit 31 (uint x) = uint x" by (rule signed_take_bit_int_eq_self)
  then show ?thesis by (simp add: sint_uint)
qed

lemma doubling_from_pow:
  "n \<le> 2 ^ k \<Longrightarrow> (0 < k \<Longrightarrow> 2 ^ (k - 1) < n) \<Longrightarrow> a \<le> k \<Longrightarrow> doubling_from (2 ^ a) n = 2 ^ k"
proof (induction "k - a" arbitrary: a)
  case 0
  then have "a = k" by simp
  with 0 show ?case by (subst doubling_from.simps) simp
next
  case (Suc d)
  then have ak: "a < k" by simp
  then have "(2::nat) ^ a \<le> 2 ^ (k - 1)" by (intro power_increasing) auto
  moreover have "2 ^ (k - 1) < n" using Suc.prems(2) ak by simp
  ultimately have "\<not> n \<le> 2 ^ a" by linarith
  then have "doubling_from (2 ^ a) n = doubling_from (2 ^ Suc a) n"
    by (subst doubling_from.simps) simp
  also have "\<dots> = 2 ^ k"
    using Suc.hyps(2) ak Suc.prems by (intro Suc.hyps(1)) auto
  finally show ?case .
qed

lemma next_power_of_two_eq:
  "n \<le> 2 ^ k \<Longrightarrow> (0 < k \<Longrightarrow> 2 ^ (k - 1) < n) \<Longrightarrow> next_power_of_two n = 2 ^ k"
  using doubling_from_pow [of n k 0] by (simp add: next_power_of_two_def)

lemma ex_pow2_bracket: "0 < n \<Longrightarrow> \<exists>k. n \<le> 2 ^ k \<and> (0 < k \<longrightarrow> 2 ^ (k - 1) < n)" for n :: nat
proof -
  assume n: "0 < n"
  have "n \<le> 2 ^ n" by (simp add: less_imp_le)
  then have ex: "\<exists>k. n \<le> 2 ^ k" ..
  define k where "k = (LEAST k. n \<le> 2 ^ k)"
  have k1: "n \<le> 2 ^ k" unfolding k_def using ex by (rule LeastI_ex)
  have "2 ^ (k - 1) < n" if "0 < k"
  proof (rule ccontr)
    assume "\<not> 2 ^ (k - 1) < n"
    then have "n \<le> 2 ^ (k - 1)" by simp
    then have "k \<le> k - 1" unfolding k_def by (rule Least_le)
    with that show False by simp
  qed
  with k1 show ?thesis by blast
qed

lemma maskOfNextPowOf2_eq:
  fixes n :: "16 word"
  assumes n1: "1 \<le> unat n" and n2: "unat n \<le> 2 ^ 15"
  shows "unat (maskOfNextPowOf2 n) = next_power_of_two (unat n) - 1"
proof -
  from n1 have pos: "0 < n" by (simp add: word_gt_0 unat_gt_0 [symmetric])
  from n1 obtain k where k1: "unat n \<le> 2 ^ k" and k2: "0 < k \<longrightarrow> 2 ^ (k - 1) < unat n"
    using ex_pow2_bracket [of "unat n"] by auto
  have np: "next_power_of_two (unat n) = 2 ^ k"
    using k1 k2 by (intro next_power_of_two_eq) auto
  have k15: "k \<le> 15"
  proof (rule ccontr)
    assume "\<not> k \<le> 15"
    then have "0 < k" "15 \<le> k - 1" by auto
    then have "(2::nat) ^ 15 \<le> 2 ^ (k - 1)" by (intro power_increasing) auto
    with k2 \<open>0 < k\<close> n2 show False by simp
  qed
  show ?thesis
  proof (cases "unat n = 2 ^ k")
    case True
    then have "n AND (n - 1) = 0" using and_pred_word [OF pos] by blast
    then have "maskOfNextPowOf2 n = n - 1" using pos by (simp add: maskOfNextPowOf2_def)
    moreover have "unat (n - 1) = unat n - 1" using pos by (simp add: unat_minus_one)
    ultimately show ?thesis using np True by simp
  next
    case False
    with k1 have lt: "unat n < 2 ^ k" by simp
    have kpos: "0 < k" using lt n1 by (cases k) auto
    then obtain j where j: "k = Suc j" by (cases k) auto
    have lo: "2 ^ j \<le> unat n" using k2 j by simp
    have notpow: "\<not> (\<exists>i. unat n = 2 ^ i)"
    proof
      assume "\<exists>i. unat n = 2 ^ i"
      then obtain i where i: "unat n = 2 ^ i" ..
      from lt i have "(2::nat) ^ i < 2 ^ k" by simp
      then have "i < k" by (rule power_less_imp_less_exp [rotated]) simp
      moreover from i lo have "(2::nat) ^ j \<le> 2 ^ i" by simp
      moreover from k2 j i have "(2::nat) ^ j < 2 ^ i" by simp
      then have "j < i" by (rule power_less_imp_less_exp [rotated]) simp
      ultimately show False using j by simp
    qed
    then have "n AND (n - 1) \<noteq> 0" using and_pred_word [OF pos] by blast
    then have "maskOfNextPowOf2 n = (let c1 = n OR drop_bit 1 n; c2 = c1 OR drop_bit 2 c1; c3 = c2 OR drop_bit 4 c2
          in c3 OR drop_bit 8 c3)" by (simp add: maskOfNextPowOf2_def)
    also have "\<dots> = mask (Suc j)" using lo lt j by (intro smear_mask) auto
    finally have "unat (maskOfNextPowOf2 n) = unat (mask (Suc j) :: 16 word)" by simp
    also have "\<dots> = 2 ^ Suc j - 1" using k15 j by (intro unat_mask16) simp
    finally show ?thesis using np j by simp
  qed
qed

lemma shard_index_bounds:
  fixes msk :: "16 word"
  shows "0 \<le> sint (shard_index key (ucast msk)) \<and> sint (shard_index key (ucast msk)) \<le> sint (ucast msk :: 32 word)"
proof -
  let ?M = "ucast msk :: 32 word"
  let ?x = "hashBKRD key AND ?M"
  have M: "uint ?M < 2 ^ 16" 
    using uint_lt2p [of msk] by (simp add: uint_up_ucast is_up)
  have le: "uint ?x \<le> uint ?M" by (simp add: word_and_le1 [THEN word_le_def [THEN iffD1]])
  have s1: "sint ?x = uint ?x" using le M by (rule sint_small)
  have s2: "sint ?M = uint ?M" using M by (intro sint_small [of ?M ?M]) simp_all
  show ?thesis unfolding shard_index_def s1 s2 using le by simp
qed

lemma next_power_of_two_spec:
  "0 < n \<Longrightarrow> \<exists>k. next_power_of_two n = 2 ^ k \<and> n \<le> 2 ^ k \<and> (0 < k \<longrightarrow> 2 ^ (k - 1) < n)"
proof -
  assume "0 < n"
  then obtain k where k: "n \<le> 2 ^ k \<and> (0 < k \<longrightarrow> 2 ^ (k - 1) < n)"
    using ex_pow2_bracket by blast
  then have "next_power_of_two n = 2 ^ k" by (intro next_power_of_two_eq) auto
  with k show ?thesis by blast
qed

text \<open>
  C8. \<open>hashBKRD\<close> starts from 0 and folds each byte in as \<open>hash * 131 + byte\<close>, in
  wrapping signed 32-bit arithmetic; for a bucket count \<open>n\<close> from 1 to \<open>2^15\<close> the mask is
  \<open>next_power_of_two n - 1\<close>; and the shard index \<open>hash & mask\<close> lies between 0 and the
  mask, whatever the sign of the hash.
\<close>

theorem hashBKRD_mask_shard_index:
  fixes n msk :: "16 word"
  shows "hashBKRD [] = 0
       \<and> hashBKRD (key @ [c]) = hashBKRD key * 131 + of_char c
       \<and> sint (hashBKRD (key @ [c])) = signed_take_bit 31 (sint (hashBKRD key) * 131 + of_char c)
       \<and> (1 \<le> unat n \<and> unat n \<le> 2 ^ 15 \<longrightarrow>
            unat (maskOfNextPowOf2 n) = next_power_of_two (unat n) - 1)
       \<and> 0 \<le> sint (shard_index key (ucast msk))
       \<and> sint (shard_index key (ucast msk)) \<le> sint (ucast msk :: 32 word)"
proof -
  have step: "hashBKRD (key @ [c]) = hashBKRD key * 131 + of_char c"
    by (simp add: hashBKRD_def hashBKRD_loop_snoc)
  have "sint (hashBKRD (key @ [c])) = signed_take_bit 31 (sint (hashBKRD key) * 131 + of_char c)"
    unfolding step by (rule hash_step_signed)
  moreover have "hashBKRD [] = 0" by (simp add: hashBKRD_def)
  moreover have "1 \<le> unat n \<and> unat n \<le> 2 ^ 15 \<longrightarrow>
            unat (maskOfNextPowOf2 n) = next_power_of_two (unat n) - 1"
    using maskOfNextPowOf2_eq [of n] by blast
  ultimately show ?thesis using step shard_index_bounds [of key msk] by blast
qed

theorem hashBKRD_mask_shard_index_witness:
  "1 \<le> unat (5 :: 16 word) \<and> unat (5 :: 16 word) \<le> 2 ^ 15
   \<and> unat (maskOfNextPowOf2 5) = next_power_of_two (unat (5 :: 16 word)) - 1
   \<and> maskOfNextPowOf2 5 = 7
   \<and> hashBKRD ''ab'' = 97 * 131 + 98
   \<and> sint (shard_index ''ab'' (ucast (7 :: 16 word))) \<le> 7"
proof -
  have h: "1 \<le> unat (5 :: 16 word) \<and> unat (5 :: 16 word) \<le> 2 ^ 15" by simp
  have m: "maskOfNextPowOf2 5 = 7" by (simp add: maskOfNextPowOf2_def)
  from hashBKRD_mask_shard_index [of "''a''" "CHR ''b''" 5 7] h
  have "hashBKRD ''ab'' = hashBKRD ''a'' * 131 + of_char (CHR ''b'')"
    and "unat (maskOfNextPowOf2 5) = next_power_of_two (unat (5 :: 16 word)) - 1"
    by simp_all
  moreover from hashBKRD_mask_shard_index [of "''ab''" _ 5 7]
  have "sint (shard_index ''ab'' (ucast (7 :: 16 word))) \<le> sint (ucast (7 :: 16 word) :: 32 word)"
    by blast
  ultimately show ?thesis using h m by (simp add: hashBKRD_def)
qed


section \<open>Evaluation of concrete runs\<close>

lemma replicate_numeral_unfold: "replicate (numeral k) x = x # replicate (pred_numeral k) x"
  by (simp add: numeral_eq_Suc)

lemma cache_walk_from_numeral:
  "cache_walk_from (numeral k) idx c =
     (if idx = 0 then Some []
      else do {
        nd \<leftarrow> rd (c_m c) (dec16 idx);
        nxt \<leftarrow> rd2 (c_dlnk c) idx n_ix;
        rest \<leftarrow> cache_walk_from (pred_numeral k) nxt c;
        Some (if node_expireAt nd > 0 then (node_k nd, node_v nd, node_expireAt nd) # rest else rest)
      })"
  by (simp add: numeral_eq_Suc)

lemmas cache_eval = cache_put_def Create_def cache_adjust_def rd_def wr_def rd2_def wr2_def at2_def
  set2_def Head_def Tail_def p_ix_def n_ix_def dec16_def inc16_def cache_get_def cache_del_def
  cache_walk_def cache_live_def replicate_numeral_unfold cache_walk_from_numeral

lemmas lru2_eval' = newLRU2Cache_def maskOfNextPowOf2_def shard_of_def shard_index_def lru2_delete_def
  lru2_get_def lru2_Get_def lru2_SetWithExpiration_def lru2_Set_def lru2_Delete_def

lemmas lru2_eval = lru2_eval' wrap64_def

lemma wrap64_id: "- (2 ^ 63) \<le> x \<Longrightarrow> x < 2 ^ 63 \<Longrightarrow> wrap64 x = x"
  by (simp add: wrap64_def)

lemmas lru_eval = lru_Set_def lru_SetWithExpiration_def lru_evict_def newLRUCache_def
  lru_removeElement_def lru_Front_def lru_Back_def lru_Delete_def string_Len_def


text \<open>
  C1. On the LRU-2 engine a \<open>Get\<close> that finds the key's tier-1 entry live and unexpired
  promotes it and returns the value with true. The code does not do so in every state
  it reaches. With one bucket, tier-1 capacity 2 and tier-2 capacity 1, after
  \<open>Set(a,1); Get(a); Set(b,2); Get(b); Set(c,3)\<close>, all at clock 100, the key \<open>c\<close> is live
  in tier 1 and expires at 10000100, and \<open>Get(c)\<close> at clock 100 panics: tier 2 is full
  and the tail link of its sentinel is 0, so \<open>put\<close> indexes slot \<open>0 - 1\<close>. With tier-2
  capacity 2 the same happens after
  \<open>Set(a,1); Get(a); Get(a); Set(b,2); Get(b); Get(b); Set(c,3)\<close>.
\<close>

theorem lru2_Get_panics_on_promotion:
  "lru2_run [CallSet ''a'' (Some 1) 100, CallGet ''a'' 100 100,
             CallSet ''b'' (Some 2) 100, CallGet ''b'' 100 100,
             CallSet ''c'' (Some 3) 100] (newLRU2Cache opts_1_2_1)
     = Some ([NoReply, GetReply (Some 1) True, NoReply, GetReply (Some 2) True, NoReply],
             [(''a'', Some 1)], store_cap1_b_promoted_c_set)
   \<and> cache_live (fst (l2_caches store_cap1_b_promoted_c_set ! 0)) ''c''
     = Some \<lparr>node_k = ''c'', node_v = Some 3, node_expireAt = 10000100\<rparr>
   \<and> lru2_Get ''c'' 100 100 store_cap1_b_promoted_c_set = None
   \<and> lru2_run [CallSet ''a'' (Some 1) 100, CallGet ''a'' 100 100, CallGet ''a'' 100 100,
             CallSet ''b'' (Some 2) 100, CallGet ''b'' 100 100, CallGet ''b'' 100 100,
             CallSet ''c'' (Some 3) 100] (newLRU2Cache opts_1_2_2)
     = Some ([NoReply, GetReply (Some 1) True, GetReply (Some 1) True,
              NoReply, GetReply (Some 2) True, GetReply (Some 2) True, NoReply],
             [], store_a_b_promoted_c_set)
   \<and> cache_live (fst (l2_caches store_a_b_promoted_c_set ! 0)) ''c''
     = Some \<lparr>node_k = ''c'', node_v = Some 3, node_expireAt = 10000100\<rparr>
   \<and> lru2_Get ''c'' 100 100 store_a_b_promoted_c_set = None"
  by (simp add: cache_eval lru2_eval opts_1_2_1_def opts_1_2_2_def
      store_cap1_b_promoted_c_set_def store_a_b_promoted_c_set_def)

text \<open>
  C2. An entry stored on the LRU-2 engine by \<open>SetWithExpiration\<close> with \<open>ttl \<le> 0\<close>
  never expires, so a later \<open>Get\<close> returns it. The code stores it with \<open>expireAt = 0\<close>,
  which \<open>del\<close> reads as a tombstone: \<open>Get\<close> right after the write returns not-found.
\<close>

theorem lru2_ttl_zero_entry_not_found:
  "map_option (\<lambda>(replies, events, s). (replies, events))
     (lru2_run [CallSetWithExpiration ''a'' (Some (1::nat)) 0 100, CallGet ''a'' 100 100]
        (newLRU2Cache opts_1_2_2))
   = Some ([NoReply, GetReply None False], [])"
  by (simp add: cache_eval lru2_eval opts_1_2_2_def)

text \<open>
  C3. A \<open>Get\<close> that finds the key expired, in tier 1 or in tier 2, deletes it from both
  tiers, fires the callback and returns not-found. For an entry found in tier 2 the code
  returns not-found only: after \<open>Set(a,1); Get(a)\<close> at clock 100 the entry is in tier 2
  and expires at 10000100; \<open>Get(a)\<close> at clock 10000100 returns not-found, calls no
  callback and leaves the entry live in tier 2, where \<open>walk\<close> still visits it. For an
  entry found in tier 1 (\<open>Set(a,1)\<close> at clock 100, \<open>Get(a)\<close> at clock 10000100) the
  code deletes it and returns not-found, and calls no callback either.
\<close>

theorem lru2_Get_keeps_expired_tier2_entry:
  "lru2_run [CallSet ''a'' (Some 1) 100, CallGet ''a'' 100 100] (newLRU2Cache opts_1_2_2)
     = Some ([NoReply, GetReply (Some 1) True], [], store_a_promoted)
   \<and> (\<exists>s'. lru2_Get ''a'' 10000100 10000100 store_a_promoted = Some ((None, False), [], s')
          \<and> cache_live (snd (l2_caches s' ! 0)) ''a''
            = Some \<lparr>node_k = ''a'', node_v = Some 1, node_expireAt = 10000100\<rparr>
          \<and> cache_walk 3 (snd (l2_caches s' ! 0)) = Some [(''a'', Some 1, 10000100)])
   \<and> (\<exists>s'. lru2_run [CallSet ''a'' (Some (1::nat)) 100, CallGet ''a'' 10000100 10000100]
               (newLRU2Cache opts_1_2_2)
            = Some ([NoReply, GetReply None False], [], s')
          \<and> cache_live (fst (l2_caches s' ! 0)) ''a'' = None)"
  by (simp add: cache_eval lru2_eval opts_1_2_2_def store_a_promoted_def)

text \<open>
  C4. On the single-tier engine \<open>Set\<close> evicts expired entries and then least recently
  used entries from the tail while \<open>usedBytes > maxBytes\<close>, so the most recently used
  entries survive. The code removes the front element: with a budget of 10 bytes and three
  entries of 5 bytes each, the third \<open>Set\<close> evicts the entry it has just inserted and
  the two oldest survive.
\<close>

theorem lru_Set_evicts_newest:
  "do { (e1, c1) \<leftarrow> lru_Set string_Len ''a'' (Some ''1111'') 1 1 [] (newLRUCache opts_lru_10);
        (e2, c2) \<leftarrow> lru_Set string_Len ''b'' (Some ''2222'') 2 2 [] c1;
        (e3, c3) \<leftarrow> lru_Set string_Len ''c'' (Some ''3333'') 3 3 [] c2;
        Some (e1, e2, lru_list c2, lru_usedBytes c2, e3, lru_list c3, lru_usedBytes c3) }
   = Some ([], [], [(''b'', ''2222''), (''a'', ''1111'')], 10,
           [(''c'', Some ''3333'')], [(''b'', ''2222''), (''a'', ''1111'')], 10)"
  by (simp add: lru_eval opts_lru_10_def)

text \<open>
  C5. With one bucket, both capacities 2 and no TTL, after \<open>Set(a,1); Set(b,2); Set(c,3)\<close>
  tier 1 holds \<open>b\<close> and \<open>c\<close>, the callback was called once with \<open>(a,1)\<close>, and \<open>Get(b)\<close>
  returns \<open>(2, true)\<close>. The code's \<open>Set\<close> has a TTL: it stores every entry with an expiry
  of 10 ms. After the three writes at clock 100 (callback \<open>(a,1)\<close>), a \<open>Get(b)\<close> that
  reads the clock 10 ms later returns not-found.
\<close>

theorem lru2_scenario_Get_after_ten_ms:
  "map_option (\<lambda>(replies, events, s). (replies, events))
     (lru2_run [CallSet ''a'' (Some (1::nat)) 100, CallSet ''b'' (Some 2) 100, CallSet ''c'' (Some 3) 100,
                CallGet ''b'' 10000100 10000100] (newLRU2Cache opts_1_2_2))
   = Some ([NoReply, NoReply, NoReply, GetReply None False], [(''a'', Some 1)])"
  by (simp add: cache_eval lru2_eval opts_1_2_2_def)

text \<open>
  The same run when \<open>Get(b)\<close> reads the clock less than 10 ms after \<open>Set(b)\<close> read it, for
  clock readings from 0 and below \<open>2^63 - 10^7\<close>: the entry is found and promoted.
\<close>

lemma lru2_scenario_within_ttl:
  assumes "0 \<le> t1" "t1 < 2 ^ 63 - 10000000" "0 \<le> t2" "t2 < 2 ^ 63 - 10000000"
    "0 \<le> t3" "t3 < 2 ^ 63 - 10000000" "tg < t2 + 10000000"
  shows "\<exists>s3 s4.
      lru2_run [CallSet ''a'' (Some (1::nat)) t1, CallSet ''b'' (Some 2) t2, CallSet ''c'' (Some 3) t3]
          (newLRU2Cache opts_1_2_2)
        = Some ([NoReply, NoReply, NoReply], [(''a'', Some 1)], s3)
    \<and> cache_walk 3 (fst (l2_caches s3 ! 0))
        = Some [(''c'', Some 3, t3 + 10000000), (''b'', Some 2, t2 + 10000000)]
    \<and> cache_live (fst (l2_caches s3 ! 0)) ''a'' = None
    \<and> lru2_Get ''b'' tg tg2 s3 = Some ((Some 2, True), [], s4)
    \<and> cache_walk 3 (fst (l2_caches s4 ! 0)) = Some [(''c'', Some 3, t3 + 10000000)]
    \<and> cache_live (fst (l2_caches s4 ! 0)) ''b'' = None
    \<and> cache_walk 3 (snd (l2_caches s4 ! 0)) = Some [(''b'', Some 2, t2 + 10000000)]"
proof -
  have w: "wrap64 (t1 + 10000000) = t1 + 10000000" "wrap64 (t2 + 10000000) = t2 + 10000000"
    "wrap64 (t3 + 10000000) = t3 + 10000000"
    using assms by (simp_all add: wrap64_id)
  show ?thesis
    using assms by (simp add: cache_eval lru2_eval' w opts_1_2_2_def)
qed

text \<open>
  C6. Inserting more distinct live keys than the capacity into one tier leaves exactly
  capacity live entries, each insertion beyond the capacity reusing the tail slot and
  calling the callback once. With capacity 1 the code does so for the second key and
  panics on the third: \<open>adjust\<close> of the only slot leaves the tail link of the sentinel
  at 0, and the next \<open>put\<close> indexes slot \<open>0 - 1\<close>.
\<close>

theorem cache_put_panics_at_capacity_one:
  "do { (r1, e1, c1) \<leftarrow> cache_put ''a'' (Some 1) 5 True (Create 1);
        (r2, e2, c2) \<leftarrow> cache_put ''b'' (Some 2) 5 True c1;
        Some (r1, e1, r2, e2, c2) }
     = Some (1, [], 1, [(''a'', Some 1)], tier_cap1_after_a_b)
   \<and> cache_put ''c'' (Some 3) 5 True tier_cap1_after_a_b = None"
  by (simp add: cache_eval tier_cap1_after_a_b_def)

text \<open>
  C9. \<open>Now()\<close> is at most about 100 ms behind the wall clock, the stored clock advancing
  by the 100 ms of each sleep. The code sleeps 100 ms and adds 100 microseconds: nine
  sleeps of exactly 100 ms after a sample leave \<open>Now()\<close> 899.1 ms behind the wall clock.
\<close>

theorem clock_stale_after_nine_ticks:
  "tick_sleep = 100000000 \<and> tick_increment = 100000
   \<and> clock_ticks [0, 0, 0, 0, 0, 0, 0, 0, 0]
        (clock_sample \<lparr>clk_clock = 0, clk_wall = 1700000000000000000\<rparr>)
     = \<lparr>clk_clock = 1700000000000900000, clk_wall = 1700000000900000000\<rparr>
   \<and> clk_wall (clock_ticks [0, 0, 0, 0, 0, 0, 0, 0, 0]
        (clock_sample \<lparr>clk_clock = 0, clk_wall = 1700000000000000000\<rparr>))
      - Now (clock_ticks [0, 0, 0, 0, 0, 0, 0, 0, 0]
        (clock_sample \<lparr>clk_clock = 0, clk_wall = 1700000000000000000\<rparr>)) = 899100000"
  by (simp add: tick_sleep_def tick_increment_def Millisecond_def Microsecond_def clock_sample_def
      clock_tick_def clock_sleep_def Now_def wrap64_def)

text \<open>
  C7. \<open>Delete\<close> on the LRU-2 engine removes the key's entry from both tiers, returns true
  exactly when an entry for the key was present in either tier, and calls the callback at
  most once per call. The code misses an entry written with \<open>ttl \<le> 0\<close>, the never-expiring
  entry of the interface: after \<open>SetWithExpiration(a,1,0)\<close> the slot of \<open>a\<close> holds the value,
  and \<open>Delete(a)\<close> returns false, calls no callback and leaves the store as it was. With
  40000 buckets \<open>mask+1\<close> wraps to 0, the store has no shard, and \<open>Delete\<close> panics.
\<close>

theorem lru2_Delete_misses_ttl_zero_entry:
  "lru2_run [CallSetWithExpiration ''a'' (Some 1) 0 100] (newLRU2Cache opts_1_2_2)
     = Some ([NoReply], [], store_a_ttl_zero)
   \<and> lru2_Delete ''a'' store_a_ttl_zero = Some (False, [], store_a_ttl_zero)
   \<and> l2_caches (newLRU2Cache opts_40000_2_2 :: nat lru2Store) = []
   \<and> lru2_Delete ''a'' (newLRU2Cache opts_40000_2_2 :: nat lru2Store) = None"
  by (simp add: cache_eval lru2_eval opts_1_2_2_def opts_40000_2_2_def store_a_ttl_zero_def)

text \<open>
  C10. \<open>Set\<close> on the LRU-2 engine stores the entry with an expiry of \<open>1e7\<close> ns from the
  clock, so every entry written by \<open>Set\<close> expires 10 ms after the write. The code does
  not store the entry in every state it reaches: with one bucket and tier-1 capacity 2,
  after \<open>Set(a,1); Set(a,1); Set(b,2); Set(b,2)\<close>, all at clock 100, both entries expire at
  10000100, tier 1 is full and the tail link of its sentinel is 0, and \<open>Set(c,3)\<close>
  panics: \<open>put\<close> indexes slot \<open>0 - 1\<close>.
\<close>

theorem lru2_Set_panics_on_full_tier:
  "lru2_run [CallSet ''a'' (Some 1) 100, CallSet ''a'' (Some 1) 100,
             CallSet ''b'' (Some 2) 100, CallSet ''b'' (Some 2) 100] (newLRU2Cache opts_1_2_2)
     = Some ([NoReply, NoReply, NoReply, NoReply], [], store_a_a_b_b_set)
   \<and> lru2_Set ''c'' (Some 3) 100 store_a_a_b_b_set = None"
  by (simp add: cache_eval lru2_eval opts_1_2_2_def store_a_a_b_b_set_def)

section \<open>Well-formed states are kept\<close>

lemma dec16_pos: "0 < idx \<Longrightarrow> idx < 65536 \<Longrightarrow> dec16 idx = idx - 1"
  by (simp add: dec16_def mod_if)

lemma inc16_small: "x < 65535 \<Longrightarrow> inc16 x = x + 1"
  by (simp add: inc16_def)

lemma rd_Some: "i < length xs \<Longrightarrow> rd xs i = Some (xs ! i)"
  by (simp add: rd_def)

lemma wr_Some: "i < length xs \<Longrightarrow> wr xs i x = Some (xs[i := x])"
  by (simp add: wr_def)

lemma rd2_Some: "i < length d \<Longrightarrow> rd2 d i j = Some (at2 (d ! i) j)"
  by (simp add: rd2_def rd_def)

lemma wr2_Some: "i < length d \<Longrightarrow> wr2 d i j x = Some (d[i := set2 (d ! i) j x])"
  by (simp add: wr2_def rd_def wr_def)

lemma links_ok_nth:
  "links_ok d \<Longrightarrow> i < length d \<Longrightarrow> fst (d ! i) < length d \<and> snd (d ! i) < length d"
  by (simp add: links_ok_def list_all_length)

lemma links_ok_at2: "links_ok d \<Longrightarrow> i < length d \<Longrightarrow> at2 (d ! i) j < length d"
  using links_ok_nth [of d i] by (simp add: at2_def)

lemma links_ok_update:
  assumes "links_ok d" "i < length d" "fst pr < length d" "snd pr < length d"
  shows "links_ok (d[i := pr])"
  unfolding links_ok_def list_all_length
proof (intro conjI allI impI)
  from assms(1) show "d[i := pr] \<noteq> []" by (simp add: links_ok_def)
next
  fix n assume "n < length (d[i := pr])"
  then have n: "n < length d" by simp
  show "fst (d[i := pr] ! n) < length (d[i := pr])"
    using assms links_ok_nth [OF assms(1) n] n by (cases "n = i") simp_all
  show "snd (d[i := pr] ! n) < length (d[i := pr])"
    using assms links_ok_nth [OF assms(1) n] n by (cases "n = i") simp_all
qed

lemma links_ok_set2:
  assumes "links_ok d" "i < length d" "x < length d"
  shows "links_ok (d[i := set2 (d ! i) j x])"
  using assms links_ok_nth [OF assms(1,2)]
  by (intro links_ok_update) (simp_all add: set2_def)

lemma rd2_step:
  assumes "links_ok d" "i < length d"
  obtains x where "rd2 d i j = Some x" "x < length d"
  using assms by (simp add: rd2_Some links_ok_at2)

lemma wr2_step:
  assumes "links_ok d" "i < length d" "x < length d"
  obtains d' where "wr2 d i j x = Some d'" "links_ok d'" "length d' = length d"
  using assms by (simp add: wr2_Some links_ok_set2)

lemma wr2_if_step:
  assumes "links_ok d" "i < length d" "x < length d"
  obtains d' where "(if b then wr2 d i j x else Some d) = Some d'" "links_ok d'" "length d' = length d"
  using assms by (cases b) (simp_all add: wr2_Some links_ok_set2)

lemma cache_adjust_ok:
  assumes ok: "links_ok d" and idx: "idx < length d"
  shows "\<exists>d'. cache_adjust idx f t d = Some d' \<and> links_ok d' \<and> length d' = length d"
proof (cases "idx = 0")
  case True
  with ok show ?thesis by (simp add: cache_adjust_def)
next
  case False
  from ok have z: "0 < length d" by (simp add: links_ok_def)
  obtain prev where prev: "rd2 d idx p_ix = Some prev" "prev < length d"
    using ok idx by (rule rd2_step)
  obtain nxt where nxt: "rd2 d idx n_ix = Some nxt" "nxt < length d"
    using ok idx by (rule rd2_step)
  obtain d1 where d1: "(if prev \<noteq> 0 then wr2 d prev n_ix nxt else Some d) = Some d1"
      "links_ok d1" "length d1 = length d"
    using ok prev(2) nxt(2) by (rule wr2_if_step)
  obtain d2 where d2: "(if nxt \<noteq> 0 then wr2 d1 nxt p_ix prev else Some d1) = Some d2"
      "links_ok d2" "length d2 = length d"
    using d1(2) nxt(2) prev(2) d1(3) by (metis wr2_if_step)
  obtain h2 where h2: "rd2 d2 0 Head = Some h2" "h2 < length d"
    using d2(2) z d2(3) by (metis rd2_step)
  obtain d3 where d3: "(if h2 = idx then wr2 d2 0 Head nxt else Some d2) = Some d3"
      "links_ok d3" "length d3 = length d"
    using d2(2) z nxt(2) d2(3) by (metis wr2_if_step)
  obtain t3 where t3: "rd2 d3 0 Tail = Some t3" "t3 < length d"
    using d3(2) z d3(3) by (metis rd2_step)
  obtain d4 where d4: "(if t3 = idx then wr2 d3 0 Tail prev else Some d3) = Some d4"
      "links_ok d4" "length d4 = length d"
    using d3(2) z prev(2) d3(3) by (metis wr2_if_step)
  have pre: "cache_adjust idx f t d =
      (if t = Head then do {
          d5 \<leftarrow> wr2 d4 idx p_ix 0;
          h5 \<leftarrow> rd2 d5 0 Head;
          d6 \<leftarrow> wr2 d5 idx n_ix h5;
          h6 \<leftarrow> rd2 d6 0 Head;
          d7 \<leftarrow> (if h6 \<noteq> 0 then wr2 d6 h6 p_ix idx else Some d6);
          wr2 d7 0 Head idx
        } else do {
          d5 \<leftarrow> wr2 d4 idx n_ix 0;
          t5 \<leftarrow> rd2 d5 0 Tail;
          d6 \<leftarrow> wr2 d5 idx p_ix t5;
          t6 \<leftarrow> rd2 d6 0 Tail;
          d7 \<leftarrow> (if t6 \<noteq> 0 then wr2 d6 t6 n_ix idx else Some d6);
          wr2 d7 0 Tail idx
        })"
    using False prev(1) nxt(1) d1(1) d2(1) h2(1) d3(1) t3(1) d4(1)
    by (simp add: cache_adjust_def)
  have ins: "\<exists>d'. do {
          d5 \<leftarrow> wr2 d4 idx a 0;
          h5 \<leftarrow> rd2 d5 0 e;
          d6 \<leftarrow> wr2 d5 idx b h5;
          h6 \<leftarrow> rd2 d6 0 e;
          d7 \<leftarrow> (if h6 \<noteq> 0 then wr2 d6 h6 a idx else Some d6);
          wr2 d7 0 e idx
        } = Some d' \<and> links_ok d' \<and> length d' = length d" for a b e
  proof -
    obtain d5 where d5: "wr2 d4 idx a 0 = Some d5" "links_ok d5" "length d5 = length d"
      using d4(2) idx z d4(3) by (metis wr2_step)
    obtain h5 where h5: "rd2 d5 0 e = Some h5" "h5 < length d"
      using d5(2) z d5(3) by (metis rd2_step)
    obtain d6 where d6: "wr2 d5 idx b h5 = Some d6" "links_ok d6" "length d6 = length d"
      using d5(2) idx h5(2) d5(3) by (metis wr2_step)
    obtain h6 where h6: "rd2 d6 0 e = Some h6" "h6 < length d"
      using d6(2) z d6(3) by (metis rd2_step)
    obtain d7 where d7: "(if h6 \<noteq> 0 then wr2 d6 h6 a idx else Some d6) = Some d7"
        "links_ok d7" "length d7 = length d"
      using d6(2) h6(2) idx d6(3) by (metis wr2_if_step)
    obtain d8 where d8: "wr2 d7 0 e idx = Some d8" "links_ok d8" "length d8 = length d"
      using d7(2) z idx d7(3) by (metis wr2_step)
    show ?thesis
      using d5(1) h5(1) d6(1) h6(1) d7(1) d8 by simp
  qed
  show ?thesis
    unfolding pre using ins [of p_ix Head n_ix] ins [of n_ix Tail p_ix] by (cases "t = Head") simp_all
qed

lemma cache_wf_hmap:
  assumes "cache_wf c" "map_of (c_hmap c) k = Some idx"
  shows "0 < idx" "idx \<le> c_last c" "idx \<le> length (c_m c)" "node_k (c_m c ! (idx - 1)) = k"
    "dec16 idx = idx - 1" "idx - 1 < length (c_m c)" "idx < length (c_dlnk c)"
proof -
  from assms(2) have "(k, idx) \<in> set (c_hmap c)" by (rule map_of_SomeD)
  with assms(1) show a: "0 < idx" and b: "idx \<le> c_last c" and "node_k (c_m c ! (idx - 1)) = k"
    by (auto simp: cache_wf_def list_all_iff)
  from assms(1) have l: "c_last c \<le> length (c_m c)" "length (c_m c) < 65535"
    "length (c_dlnk c) = length (c_m c) + 1" by (simp_all add: cache_wf_def)
  with b show "idx \<le> length (c_m c)" by simp
  with a l show "dec16 idx = idx - 1" by (intro dec16_pos) simp_all
  from a b l show "idx - 1 < length (c_m c)" "idx < length (c_dlnk c)" by simp_all
qed

lemma cache_wf_links: "cache_wf c \<Longrightarrow> links_ok (c_dlnk c)"
  by (simp add: cache_wf_def)

lemma cache_wf_relink:
  assumes wf: "cache_wf c" and d: "links_ok d'" "length d' = length (c_dlnk c)"
    and m: "length m' = length (c_m c)" "\<And>i. i < length m' \<Longrightarrow> node_k (m' ! i) = node_k (c_m c ! i)"
  shows "cache_wf (c\<lparr>c_m := m', c_dlnk := d'\<rparr>)"
proof -
  have "0 < idx \<and> idx \<le> c_last c \<and> node_k (m' ! (idx - 1)) = k"
    if "(k, idx) \<in> set (c_hmap c)" for k idx
  proof -
    from wf that have "map_of (c_hmap c) k = Some idx" by (simp add: cache_wf_def)
    from cache_wf_hmap [OF wf this] m show ?thesis by simp
  qed
  then show ?thesis
    using wf d m(1) by (auto simp: cache_wf_def list_all_iff)
qed

lemma cache_live_Some:
  assumes "cache_wf c"
  shows "cache_live c key = Some nd \<longleftrightarrow>
    (\<exists>idx. map_of (c_hmap c) key = Some idx \<and> nd = c_m c ! (idx - 1) \<and> 0 < node_expireAt nd)"
proof (cases "map_of (c_hmap c) key")
  case None
  then show ?thesis by (simp add: cache_live_def)
next
  case (Some idx)
  from cache_wf_hmap [OF assms Some] Some show ?thesis
    by (auto simp: cache_live_def rd_Some)
qed

lemma cache_del_dead:
  assumes wf: "cache_wf c" and dead: "cache_live c key = None"
  shows "cache_del key c = Some (None, 0, 0, c)"
proof (cases "map_of (c_hmap c) key")
  case None
  then show ?thesis by (simp add: cache_del_def)
next
  case (Some idx)
  from cache_wf_hmap [OF wf Some] Some dead show ?thesis
    by (auto simp: cache_del_def cache_live_def rd_Some split: if_splits)
qed

lemma cache_del_live:
  assumes wf: "cache_wf c" and live: "cache_live c key = Some nd"
  shows "\<exists>c'. cache_del key c = Some (Some (nd\<lparr>node_expireAt := 0\<rparr>), 1, node_expireAt nd, c')
           \<and> cache_wf c' \<and> cache_live c' key = None \<and> 0 < node_expireAt nd"
proof -
  from live wf obtain idx where idx: "map_of (c_hmap c) key = Some idx"
      and nd: "nd = c_m c ! (idx - 1)" and pos: "0 < node_expireAt nd"
    by (auto simp: cache_live_Some)
  note h = cache_wf_hmap [OF wf idx]
  obtain d' where d': "cache_adjust idx Head Tail (c_dlnk c) = Some d'" "links_ok d'"
      "length d' = length (c_dlnk c)"
    using cache_adjust_ok [OF cache_wf_links [OF wf] h(7)] by blast
  let ?m = "(c_m c)[idx - 1 := nd\<lparr>node_expireAt := 0\<rparr>]"
  let ?c = "c\<lparr>c_m := ?m, c_dlnk := d'\<rparr>"
  have del: "cache_del key c = Some (Some (nd\<lparr>node_expireAt := 0\<rparr>), 1, node_expireAt nd, ?c)"
    using idx h nd pos d'(1) by (simp add: cache_del_def rd_Some wr_Some)
  have "node_k (?m ! i) = node_k (c_m c ! i)" if "i < length ?m" for i
    using that nd by (cases "i = idx - 1") simp_all
  then have wf': "cache_wf ?c"
    using wf d'(2,3) by (intro cache_wf_relink) simp_all
  have "cache_live ?c key = None"
    using idx h by (simp add: cache_live_def rd_Some)
  with del wf' pos show ?thesis by blast
qed

lemma cache_del_total:
  assumes wf: "cache_wf c"
  shows "\<exists>n st e c'. cache_del key c = Some (n, st, e, c') \<and> cache_wf c' \<and> cache_live c' key = None
     \<and> n = map_option (\<lambda>nd. nd\<lparr>node_expireAt := 0\<rparr>) (cache_live c key)
     \<and> (0 < st) = (cache_live c key \<noteq> None)"
proof (cases "cache_live c key")
  case None
  with cache_del_dead [OF wf None] wf show ?thesis by simp
next
  case (Some nd)
  with cache_del_live [OF wf Some] show ?thesis by auto
qed

lemma sint_nonneg_eq_uint:
  fixes w :: "32 word"
  assumes "0 \<le> sint w" shows "sint w = uint w"
proof -
  have "sint w < 2 ^ 31" using sint_lt [of w] by simp
  with assms have "take_bit 32 (sint w) = sint w" by (simp add: take_bit_int_eq_self)
  moreover have "uint w = take_bit 32 (sint w)" using uint_sint [of w] by simp
  ultimately show ?thesis by simp
qed

lemma sint_below:
  fixes x M :: "32 word"
  assumes "uint x \<le> uint M" "0 \<le> sint M"
  shows "sint x = uint x"
proof -
  have p: "(2::int) ^ 31 = 2147483648" by simp
  have "uint M < 2 ^ 31" using sint_nonneg_eq_uint [OF assms(2)] sint_lt [of M] by simp
  with assms(1) have "uint x < 2 ^ 31" by simp
  moreover have "- (2 ^ 31) \<le> uint x" using uint_ge_0 [of x] unfolding p by linarith
  ultimately have "signed_take_bit 31 (uint x) = uint x" by (rule signed_take_bit_int_eq_self [rotated])
  then show ?thesis by (simp add: sint_uint)
qed

lemma shard_index_in_mask:
  fixes msk :: "32 word"
  assumes "0 \<le> sint msk"
  shows "0 \<le> sint (shard_index key msk)" "sint (shard_index key msk) \<le> sint msk"
proof -
  have le: "uint (hashBKRD key AND msk) \<le> uint msk"
    by (simp add: word_and_le1 [THEN word_le_def [THEN iffD1]])
  have s: "sint (hashBKRD key AND msk) = uint (hashBKRD key AND msk)"
    using le assms by (rule sint_below)
  show "0 \<le> sint (shard_index key msk)" unfolding shard_index_def s by simp
  show "sint (shard_index key msk) \<le> sint msk"
    unfolding shard_index_def s using le sint_nonneg_eq_uint [OF assms] by simp
qed

lemma shard_of_total:
  assumes "store_wf s"
  obtains idx where "shard_of s key = Some idx" "idx < length (l2_caches s)"
proof -
  from assms have m: "0 \<le> sint (l2_mask s)" and l: "length (l2_caches s) = nat (sint (l2_mask s)) + 1"
    by (simp_all add: store_wf_def)
  from shard_index_in_mask [OF m, of key] l
  have "0 \<le> sint (shard_index key (l2_mask s))"
    "nat (sint (shard_index key (l2_mask s))) < length (l2_caches s)" by simp_all
  then have "shard_of s key = Some (nat (sint (shard_index key (l2_mask s))))"
    by (simp add: shard_of_def Let_def)
  with \<open>nat (sint (shard_index key (l2_mask s))) < length (l2_caches s)\<close> that show ?thesis by blast
qed

lemma store_wf_shard:
  "store_wf s \<Longrightarrow> idx < length (l2_caches s) \<Longrightarrow>
     cache_wf (fst (l2_caches s ! idx)) \<and> cache_wf (snd (l2_caches s ! idx))"
  by (simp add: store_wf_def list_all_length)

lemma store_wf_update:
  assumes "store_wf s" "idx < length (l2_caches s)" "cache_wf c0" "cache_wf c1"
  shows "store_wf (s\<lparr>l2_caches := (l2_caches s)[idx := (c0, c1)]\<rparr>)"
  using assms by (auto simp: store_wf_def list_all_length nth_list_update)

lemma lru2_delete_total:
  assumes wf: "store_wf s" and idx: "idx < length (l2_caches s)"
  shows "\<exists>ev s'. lru2_delete key idx s =
        Some (cache_live (fst (l2_caches s ! idx)) key \<noteq> None
                \<or> cache_live (snd (l2_caches s ! idx)) key \<noteq> None, ev, s')
     \<and> ev = (if l2_onEvicted s then
               (case cache_live (fst (l2_caches s ! idx)) key of
                  Some n1 \<Rightarrow> if node_v n1 \<noteq> None then [(key, node_v n1)]
                     else (case cache_live (snd (l2_caches s ! idx)) key of
                             Some n2 \<Rightarrow> if node_v n2 \<noteq> None then [(key, node_v n2)] else []
                           | None \<Rightarrow> [])
                | None \<Rightarrow>
                    (case cache_live (snd (l2_caches s ! idx)) key of
                       Some n2 \<Rightarrow> if node_v n2 \<noteq> None then [(key, node_v n2)] else []
                     | None \<Rightarrow> []))
             else [])
     \<and> store_wf s' \<and> length (l2_caches s') = length (l2_caches s)
     \<and> l2_onEvicted s' = l2_onEvicted s \<and> l2_mask s' = l2_mask s
     \<and> cache_live (fst (l2_caches s' ! idx)) key = None
     \<and> cache_live (snd (l2_caches s' ! idx)) key = None
     \<and> (\<forall>j. j \<noteq> idx \<longrightarrow> l2_caches s' ! j = l2_caches s ! j)"
proof -
  let ?c0 = "fst (l2_caches s ! idx)" and ?c1 = "snd (l2_caches s ! idx)"
  from store_wf_shard [OF wf idx] have w0: "cache_wf ?c0" and w1: "cache_wf ?c1" by simp_all
  obtain n1 s1 e1 c0' where d0: "cache_del key ?c0 = Some (n1, s1, e1, c0')" "cache_wf c0'"
      "cache_live c0' key = None" "n1 = map_option (\<lambda>nd. nd\<lparr>node_expireAt := 0\<rparr>) (cache_live ?c0 key)"
      "(0 < s1) = (cache_live ?c0 key \<noteq> None)"
    using cache_del_total [OF w0, of key] by blast
  obtain n2 s2 e2 c1' where d1: "cache_del key ?c1 = Some (n2, s2, e2, c1')" "cache_wf c1'"
      "cache_live c1' key = None" "n2 = map_option (\<lambda>nd. nd\<lparr>node_expireAt := 0\<rparr>) (cache_live ?c1 key)"
      "(0 < s2) = (cache_live ?c1 key \<noteq> None)"
    using cache_del_total [OF w1, of key] by blast
  let ?s' = "s\<lparr>l2_caches := (l2_caches s)[idx := (c0', c1')]\<rparr>"
  have wf': "store_wf ?s'" using wf idx d0(2) d1(2) by (rule store_wf_update)
  show ?thesis
    using idx d0 d1 wf'
    by (cases "cache_live ?c0 key"; cases "cache_live ?c1 key")
       (simp_all add: lru2_delete_def rd_Some)
qed


lemma cache_wfI:
  assumes "length (c_dlnk c) = length (c_m c) + 1" "length (c_m c) < 65535"
    "c_last c \<le> length (c_m c)" "links_ok (c_dlnk c)" "distinct (map fst (c_hmap c))"
    "\<And>k idx. map_of (c_hmap c) k = Some idx \<Longrightarrow>
        0 < idx \<and> idx \<le> c_last c \<and> node_k (c_m c ! (idx - 1)) = k"
  shows "cache_wf c"
  using assms by (auto simp: cache_wf_def list_all_iff)

lemma cache_wf_lengths:
  assumes "cache_wf c"
  shows "length (c_dlnk c) = length (c_m c) + 1" "length (c_m c) < 65535"
    "c_last c \<le> length (c_m c)" "distinct (map fst (c_hmap c))" "0 < length (c_dlnk c)"
  using assms by (simp_all add: cache_wf_def)

lemma node_update_eq:
  "node_k nd = key \<Longrightarrow>
     nd\<lparr>node_v := val, node_expireAt := e\<rparr> = \<lparr>node_k = key, node_v = val, node_expireAt = e\<rparr>"
  by (cases nd) simp

lemma cache_put_present:
  assumes wf: "cache_wf c" and idx: "map_of (c_hmap c) key = Some idx"
  shows "\<exists>c'. cache_put key val e cb c = Some (0, [], c') \<and> cache_wf c'
     \<and> map_of (c_hmap c') key = Some idx
     \<and> c_m c' ! (idx - 1) = \<lparr>node_k = key, node_v = val, node_expireAt = e\<rparr>"
proof -
  note h = cache_wf_hmap [OF wf idx]
  obtain d' where d': "cache_adjust idx Tail Head (c_dlnk c) = Some d'" "links_ok d'"
      "length d' = length (c_dlnk c)"
    using cache_adjust_ok [OF cache_wf_links [OF wf] h(7)] by blast
  let ?nd = "\<lparr>node_k = key, node_v = val, node_expireAt = e\<rparr>"
  let ?m = "(c_m c)[idx - 1 := ?nd]"
  let ?c = "c\<lparr>c_m := ?m, c_dlnk := d'\<rparr>"
  have put: "cache_put key val e cb c = Some (0, [], ?c)"
    using idx h d'(1) by (simp add: cache_put_def rd_Some wr_Some node_update_eq)
  have "node_k (?m ! i) = node_k (c_m c ! i)" if "i < length ?m" for i
    using that h(4) by (cases "i = idx - 1") simp_all
  then have "cache_wf ?c" using wf d'(2,3) by (intro cache_wf_relink) simp_all
  with put idx h(6) show ?thesis by simp
qed

lemma cache_put_full:
  assumes wf: "cache_wf c" and none: "map_of (c_hmap c) key = None"
    and full: "c_last c = length (c_m c)" and tl: "at2 (c_dlnk c ! 0) Tail \<noteq> 0"
  shows "\<exists>ev c'. cache_put key val e cb c = Some (1, ev, c') \<and> cache_wf c'
     \<and> map_of (c_hmap c') key = Some (at2 (c_dlnk c ! 0) Tail)
     \<and> c_m c' ! (at2 (c_dlnk c ! 0) Tail - 1) = \<lparr>node_k = key, node_v = val, node_expireAt = e\<rparr>"
proof -
  note l = cache_wf_lengths [OF wf]
  define t where "t = at2 (c_dlnk c ! 0) Tail"
  have t: "rd2 (c_dlnk c) 0 Tail = Some t" "t < length (c_dlnk c)" "0 < t"
    using l(5) tl links_ok_at2 [OF cache_wf_links [OF wf] l(5)] by (simp_all add: t_def rd2_Some)
  have t1: "dec16 t = t - 1" "t - 1 < length (c_m c)"
    using t l by (simp_all add: dec16_pos)
  obtain d' where d': "cache_adjust t Tail Head (c_dlnk c) = Some d'" "links_ok d'"
      "length d' = length (c_dlnk c)"
    using cache_adjust_ok [OF cache_wf_links [OF wf] t(2)] by blast
  let ?nd = "\<lparr>node_k = key, node_v = val, node_expireAt = e\<rparr>"
  let ?tail = "c_m c ! (t - 1)"
  let ?h = "AList.update key t (AList.delete (node_k ?tail) (c_hmap c))"
  let ?m = "(c_m c)[t - 1 := ?nd]"
  let ?c = "c\<lparr>c_hmap := ?h, c_m := ?m, c_dlnk := d'\<rparr>"
  have put: "cache_put key val e cb c = Some (1,
      (if cb \<and> node_expireAt ?tail > 0 then [(node_k ?tail, node_v ?tail)] else []), ?c)"
    using none full t(1) t1 d'(1) by (simp add: cache_put_def rd_Some wr_Some)
  have "cache_wf ?c"
  proof (rule cache_wfI)
    show "distinct (map fst (c_hmap ?c))"
      using l(4) by (simp add: AList.distinct_update AList.distinct_delete)
    fix k idx assume m: "map_of (c_hmap ?c) k = Some idx"
    show "0 < idx \<and> idx \<le> c_last ?c \<and> node_k (c_m ?c ! (idx - 1)) = k"
    proof (cases "k = key")
      case True
      with m have "idx = t" by (simp add: AList.update_conv')
      with True t t1 l full show ?thesis by simp
    next
      case False
      with m have old: "map_of (c_hmap c) k = Some idx" and ne: "k \<noteq> node_k ?tail"
        by (auto simp: AList.update_conv' AList.delete_conv' split: if_splits)
      note h = cache_wf_hmap [OF wf old]
      from h(4) ne have "idx \<noteq> t" by auto
      with h(1) t(3) have "idx - 1 \<noteq> t - 1" by simp
      with h show ?thesis by simp
    qed
  qed (use l d' in simp_all)
  moreover have "map_of (c_hmap ?c) key = Some t" by (simp add: AList.update_conv')
  moreover have "c_m ?c ! (t - 1) = ?nd" using t1 by simp
  ultimately show ?thesis using put unfolding t_def by blast
qed

lemma cache_put_fresh:
  assumes wf: "cache_wf c" and none: "map_of (c_hmap c) key = None"
    and room: "c_last c \<noteq> length (c_m c)"
  shows "\<exists>c'. cache_put key val e cb c = Some (1, [], c') \<and> cache_wf c'
     \<and> map_of (c_hmap c') key = Some (c_last c + 1)
     \<and> c_m c' ! c_last c = \<lparr>node_k = key, node_v = val, node_expireAt = e\<rparr>"
proof -
  note l = cache_wf_lengths [OF wf]
  define lst where "lst = c_last c + 1"
  have lst: "inc16 (c_last c) = lst" "lst < length (c_dlnk c)" "dec16 lst = c_last c"
    "c_last c < length (c_m c)"
    using l room by (simp_all add: lst_def inc16_small dec16_pos)
  let ?d = "c_dlnk c"
  let ?n = "length (c_dlnk c)"
  have ok: "links_ok ?d" by (rule cache_wf_links [OF wf])
  obtain d1 where d1: "(if length (c_hmap c) \<le> 0 then wr2 ?d 0 Tail lst
                   else do { h \<leftarrow> rd2 ?d 0 Head; wr2 ?d h p_ix lst }) = Some d1"
      "links_ok d1" "length d1 = ?n"
  proof (cases "length (c_hmap c) \<le> 0")
    case True
    then show ?thesis using that wr2_step [OF ok l(5) lst(2), of Tail] by auto
  next
    case False
    obtain h where h: "rd2 ?d 0 Head = Some h" "h < ?n" using ok l(5) by (rule rd2_step)
    then show ?thesis using False that wr2_step [OF ok h(2) lst(2), of p_ix] by auto
  qed
  let ?nd = "\<lparr>node_k = key, node_v = val, node_expireAt = e\<rparr>"
  let ?m = "(c_m c)[c_last c := ?nd]"
  obtain h1 where h1: "rd2 d1 0 Head = Some h1" "h1 < ?n"
    using d1(2) l(5) d1(3) by (metis rd2_step)
  have d2: "wr d1 lst (0, h1) = Some (d1[lst := (0, h1)])" "links_ok (d1[lst := (0, h1)])"
    using lst(2) d1 h1(2) l(5) by (simp_all add: wr_Some links_ok_update)
  let ?d2 = "d1[lst := (0, h1)]"
  have n2: "length ?d2 = ?n" using d1(3) by simp
  obtain h2 where h2: "rd2 ?d2 0 Head = Some h2" "h2 < ?n"
    using d2(2) l(5) n2 by (metis rd2_step)
  obtain d3 where d3: "(if h2 \<noteq> 0 then wr2 ?d2 h2 p_ix lst else Some ?d2) = Some d3"
      "links_ok d3" "length d3 = ?n"
    using d2(2) h2(2) lst(2) n2 by (metis wr2_if_step)
  obtain d4 where d4: "wr2 d3 0 Head lst = Some d4" "links_ok d4" "length d4 = ?n"
    using d3(2) l(5) lst(2) d3(3) by (metis wr2_step)
  obtain t4 where t4: "rd2 d4 0 Tail = Some t4" "t4 < ?n"
    using d4(2) l(5) d4(3) by (metis rd2_step)
  obtain d5 where d5: "(if t4 = 0 then wr2 d4 0 Tail lst else Some d4) = Some d5"
      "links_ok d5" "length d5 = ?n"
    using d4(2) l(5) lst(2) d4(3) by (metis wr2_if_step)
  let ?c = "c\<lparr>c_last := lst, c_dlnk := d5, c_m := ?m, c_hmap := AList.update key lst (c_hmap c)\<rparr>"
  have put: "cache_put key val e cb c = Some (1, [], ?c)"
    using none room lst d1(1) h1(1) d2(1) h2(1) d3(1) d4(1) t4(1) d5(1)
    by (simp add: cache_put_def wr_Some Let_def)
  have "cache_wf ?c"
  proof (rule cache_wfI)
    show "distinct (map fst (c_hmap ?c))" using l(4) by (simp add: AList.distinct_update)
    fix k idx assume m: "map_of (c_hmap ?c) k = Some idx"
    show "0 < idx \<and> idx \<le> c_last ?c \<and> node_k (c_m ?c ! (idx - 1)) = k"
    proof (cases "k = key")
      case True
      with m have "idx = lst" by (simp add: AList.update_conv')
      with True lst show ?thesis by (simp add: lst_def)
    next
      case False
      with m have old: "map_of (c_hmap c) k = Some idx" by (simp add: AList.update_conv')
      note h = cache_wf_hmap [OF wf old]
      from h(1,2) have "idx - 1 \<noteq> c_last c" by simp
      with h show ?thesis by (simp add: lst_def)
    qed
  qed (use l d5 lst in \<open>simp_all add: lst_def\<close>)
  moreover have "map_of (c_hmap ?c) key = Some lst" by (simp add: AList.update_conv')
  moreover have "c_m ?c ! c_last c = ?nd" using lst(4) by simp
  ultimately show ?thesis using put unfolding lst_def by blast
qed

lemma cache_put_total:
  assumes wf: "cache_wf c" and ready: "put_ready c key"
  shows "\<exists>r ev c' idx. cache_put key val e cb c = Some (r, ev, c') \<and> cache_wf c'
     \<and> map_of (c_hmap c') key = Some idx
     \<and> c_m c' ! (idx - 1) = \<lparr>node_k = key, node_v = val, node_expireAt = e\<rparr>"
proof (cases "map_of (c_hmap c) key")
  case (Some idx)
  from cache_put_present [OF wf Some, of val e cb] show ?thesis by blast
next
  case None
  show ?thesis
  proof (cases "c_last c = length (c_m c)")
    case True
    with ready None have "at2 (c_dlnk c ! 0) Tail \<noteq> 0" by (simp add: put_ready_def)
    from cache_put_full [OF wf None True this, of val e cb] show ?thesis by blast
  next
    case False
    from cache_put_fresh [OF wf None False, of val e cb] show ?thesis
      by (metis add_diff_cancel_right')
  qed
qed

lemma cache_put_live:
  assumes wf: "cache_wf c" and ready: "put_ready c key" and pos: "0 < e"
  shows "\<exists>r ev c'. cache_put key val e cb c = Some (r, ev, c') \<and> cache_wf c'
     \<and> cache_live c' key = Some \<lparr>node_k = key, node_v = val, node_expireAt = e\<rparr>"
proof -
  from cache_put_total [OF wf ready, of val e cb] obtain r ev c' idx where
    p: "cache_put key val e cb c = Some (r, ev, c')" "cache_wf c'"
      "map_of (c_hmap c') key = Some idx"
      "c_m c' ! (idx - 1) = \<lparr>node_k = key, node_v = val, node_expireAt = e\<rparr>"
    by blast
  have "cache_live c' key = Some \<lparr>node_k = key, node_v = val, node_expireAt = e\<rparr>"
    using p(3,4) pos by (simp add: cache_live_Some [OF p(2)])
  with p show ?thesis by blast
qed

lemma shard_of_SomeD: "shard_of s key = Some idx \<Longrightarrow> idx < length (l2_caches s)"
  by (auto simp: shard_of_def Let_def split: if_splits)

lemma shard_of_cong:
  "l2_mask s' = l2_mask s \<Longrightarrow> length (l2_caches s') = length (l2_caches s) \<Longrightarrow>
     shard_of s' key = shard_of s key"
  by (simp add: shard_of_def)

lemma lru2_SetWithExpiration_total:
  assumes wf: "store_wf s" and idx: "shard_of s key = Some idx"
    and ready: "put_ready (fst (l2_caches s ! idx)) key"
  shows "\<exists>ev s' c0 i. lru2_SetWithExpiration key val expiration now s = Some (ev, s')
     \<and> store_wf s' \<and> shard_of s' key = Some idx
     \<and> l2_caches s' = (l2_caches s)[idx := (c0, snd (l2_caches s ! idx))]
     \<and> l2_onEvicted s' = l2_onEvicted s
     \<and> map_of (c_hmap c0) key = Some i
     \<and> c_m c0 ! (i - 1) = \<lparr>node_k = key, node_v = val,
           node_expireAt = (if expiration > 0 then wrap64 (now + expiration) else 0)\<rparr>"
proof -
  let ?e = "if expiration > 0 then wrap64 (now + expiration) else 0"
  note i = shard_of_SomeD [OF idx]
  from store_wf_shard [OF wf i] have w0: "cache_wf (fst (l2_caches s ! idx))"
    and w1: "cache_wf (snd (l2_caches s ! idx))" by simp_all
  from cache_put_total [OF w0 ready, of val ?e "l2_onEvicted s"] obtain r ev c0 j where
    p: "cache_put key val ?e (l2_onEvicted s) (fst (l2_caches s ! idx)) = Some (r, ev, c0)"
      "cache_wf c0" "map_of (c_hmap c0) key = Some j"
      "c_m c0 ! (j - 1) = \<lparr>node_k = key, node_v = val, node_expireAt = ?e\<rparr>"
    by blast
  let ?s = "s\<lparr>l2_caches := (l2_caches s)[idx := (c0, snd (l2_caches s ! idx))]\<rparr>"
  have "lru2_SetWithExpiration key val expiration now s = Some (ev, ?s)"
    using idx i p(1) by (simp add: lru2_SetWithExpiration_def rd_Some Let_def)
  moreover have "store_wf ?s" using wf i p(2) w1 by (rule store_wf_update)
  moreover have "shard_of ?s key = Some idx" using idx by (simp add: shard_of_def)
  ultimately show ?thesis using p(3,4) by auto
qed

lemma lru2_Get_tier1_expired:
  assumes wf: "store_wf s" and idx: "shard_of s key = Some idx"
    and live: "cache_live (fst (l2_caches s ! idx)) key = Some nd"
    and expired: "node_expireAt nd \<le> now"
  shows "\<exists>ev s'. lru2_Get key now now2 s = Some ((None, False), ev, s') \<and> store_wf s'
     \<and> cache_live (fst (l2_caches s' ! idx)) key = None
     \<and> cache_live (snd (l2_caches s' ! idx)) key = None"
proof -
  note i = shard_of_SomeD [OF idx]
  let ?c0 = "fst (l2_caches s ! idx)" and ?c1 = "snd (l2_caches s ! idx)"
  from store_wf_shard [OF wf i] have w0: "cache_wf ?c0" and w1: "cache_wf ?c1" by simp_all
  from cache_del_live [OF w0 live] obtain c0' where
    d: "cache_del key ?c0 = Some (Some (nd\<lparr>node_expireAt := 0\<rparr>), 1, node_expireAt nd, c0')"
      "cache_wf c0'" "0 < node_expireAt nd" by blast
  let ?s1 = "s\<lparr>l2_caches := (l2_caches s)[idx := (c0', ?c1)]\<rparr>"
  have wf1: "store_wf ?s1" using wf i d(2) w1 by (rule store_wf_update)
  have i1: "idx < length (l2_caches ?s1)" using i by simp
  from lru2_delete_total [OF wf1 i1, of key] obtain b ev s2 where
    del: "lru2_delete key idx ?s1 = Some (b, ev, s2)" "store_wf s2"
      "cache_live (fst (l2_caches s2 ! idx)) key = None"
      "cache_live (snd (l2_caches s2 ! idx)) key = None"
    by blast
  have "lru2_Get key now now2 s = Some ((None, False), ev, s2)"
    using idx i d(1,3) expired del(1) by (simp add: lru2_Get_def rd_Some Let_def)
  with del show ?thesis by blast
qed

lemma lru2_Get_tier1_valid:
  assumes wf: "store_wf s" and idx: "shard_of s key = Some idx"
    and live: "cache_live (fst (l2_caches s ! idx)) key = Some nd"
    and valid: "now < node_expireAt nd"
    and ready: "put_ready (snd (l2_caches s ! idx)) key"
  shows "\<exists>ev s'. lru2_Get key now now2 s = Some ((node_v nd, True), ev, s') \<and> store_wf s'
     \<and> cache_live (fst (l2_caches s' ! idx)) key = None
     \<and> cache_live (snd (l2_caches s' ! idx)) key
        = Some \<lparr>node_k = key, node_v = node_v nd, node_expireAt = node_expireAt nd\<rparr>"
proof -
  note i = shard_of_SomeD [OF idx]
  let ?c0 = "fst (l2_caches s ! idx)" and ?c1 = "snd (l2_caches s ! idx)"
  from store_wf_shard [OF wf i] have w0: "cache_wf ?c0" and w1: "cache_wf ?c1" by simp_all
  from cache_del_live [OF w0 live] obtain c0' where
    d: "cache_del key ?c0 = Some (Some (nd\<lparr>node_expireAt := 0\<rparr>), 1, node_expireAt nd, c0')"
      "cache_wf c0'" "cache_live c0' key = None" "0 < node_expireAt nd" by blast
  from cache_put_live [OF w1 ready d(4), of "node_v nd" "l2_onEvicted s"] obtain r ev c1' where
    p: "cache_put key (node_v nd) (node_expireAt nd) (l2_onEvicted s) ?c1 = Some (r, ev, c1')"
      "cache_wf c1'"
      "cache_live c1' key = Some \<lparr>node_k = key, node_v = node_v nd, node_expireAt = node_expireAt nd\<rparr>"
    by blast
  let ?s' = "s\<lparr>l2_caches := (l2_caches s)[idx := (c0', c1')]\<rparr>"
  have "lru2_Get key now now2 s = Some ((node_v nd, True), ev, ?s')"
    using idx i d(1,4) valid p(1) by (simp add: lru2_Get_def rd_Some Let_def)
  moreover have "store_wf ?s'" using wf i d(2) p(2) by (rule store_wf_update)
  ultimately show ?thesis using i d(3) p(3) by auto
qed


lemma cache_put_not_ready:
  assumes wf: "cache_wf c" and nr: "\<not> put_ready c key"
  shows "cache_put key val e cb c = None"
proof -
  note l = cache_wf_lengths [OF wf]
  from nr have none: "map_of (c_hmap c) key = None" and full: "c_last c = length (c_m c)"
    and tl: "at2 (c_dlnk c ! 0) Tail = 0" by (simp_all add: put_ready_def)
  have "rd2 (c_dlnk c) 0 Tail = Some 0" using l(5) tl by (simp add: rd2_Some)
  moreover have "rd (c_m c) (dec16 0) = None" using l(2) by (simp add: rd_def dec16_def)
  ultimately show ?thesis using none full by (simp add: cache_put_def)
qed

lemma cache_put_wf:
  assumes "cache_wf c" "cache_put key val e cb c = Some (r, ev, c')"
  shows "cache_wf c'"
proof (cases "put_ready c key")
  case True
  from cache_put_total [OF assms(1) True, of val e cb] assms(2) show ?thesis by auto
next
  case False
  from cache_put_not_ready [OF assms(1) False, of val e cb] assms(2) show ?thesis by simp
qed

lemma cache_del_wf:
  assumes "cache_wf c" "cache_del key c = Some (n, st, e, c')"
  shows "cache_wf c'"
  using cache_del_total [OF assms(1), of key] assms(2) by auto

lemma cache_get_total:
  assumes wf: "cache_wf c"
  shows "\<exists>c'. cache_get key c =
        Some (case map_of (c_hmap c) key of None \<Rightarrow> (None, 0, c')
              | Some idx \<Rightarrow> (Some (c_m c ! (idx - 1)), 1, c'))
     \<and> cache_wf c' \<and> c_m c' = c_m c \<and> c_hmap c' = c_hmap c"
proof (cases "map_of (c_hmap c) key")
  case None
  with wf show ?thesis by (simp add: cache_get_def)
next
  case (Some idx)
  note h = cache_wf_hmap [OF wf Some]
  obtain d' where d': "cache_adjust idx Tail Head (c_dlnk c) = Some d'" "links_ok d'"
      "length d' = length (c_dlnk c)"
    using cache_adjust_ok [OF cache_wf_links [OF wf] h(7)] by blast
  have "cache_wf (c\<lparr>c_m := c_m c, c_dlnk := d'\<rparr>)"
    using wf d'(2,3) by (intro cache_wf_relink) simp_all
  then have "cache_wf (c\<lparr>c_dlnk := d'\<rparr>)" by simp
  then show ?thesis using Some h d'(1) by (simp add: cache_get_def rd_Some)
qed

lemma cache_get_wf:
  assumes "cache_wf c" "cache_get key c = Some (n, st, c')"
  shows "cache_wf c'"
  using cache_get_total [OF assms(1), of key] assms(2) by (auto split: option.splits)

lemma lru2_delete_wf:
  assumes "store_wf s" "idx < length (l2_caches s)" "lru2_delete key idx s = Some (b, ev, s')"
  shows "store_wf s'"
  using lru2_delete_total [OF assms(1,2), of key] assms(3) by auto

lemma lru2_get_wf:
  assumes wf: "store_wf s" and i: "idx < length (l2_caches s)"
    and g: "lru2_get key idx level now s = Some (n, st, s')"
  shows "store_wf s'"
proof -
  let ?sh = "l2_caches s ! idx"
  from store_wf_shard [OF wf i] have w: "cache_wf (fst ?sh)" "cache_wf (snd ?sh)" by simp_all
  from g i obtain n0 st0 c where
    c: "cache_get key (if level = 0 then fst ?sh else snd ?sh) = Some (n0, st0, c)"
    and s': "s' = s\<lparr>l2_caches := (l2_caches s)[idx := (if level = 0 then (c, snd ?sh) else (fst ?sh, c))]\<rparr>"
    by (auto simp: lru2_get_def rd_Some bind_eq_Some_conv Let_def split: if_splits)
  from c w have "cache_wf c" by (auto dest: cache_get_wf split: if_splits)
  with wf i w show ?thesis unfolding s' by (auto intro: store_wf_update)
qed

lemma lru2_get_length:
  "lru2_get key idx level now s = Some (n, st, s') \<Longrightarrow> length (l2_caches s') = length (l2_caches s)"
  by (auto simp: lru2_get_def bind_eq_Some_conv Let_def split: if_splits)

lemma lru2_Get_wf:
  assumes wf: "store_wf s" and g: "lru2_Get key now now2 s = Some (r, ev, s')"
  shows "store_wf s'"
proof -
  from g obtain idx where idx: "shard_of s key = Some idx"
    by (auto simp: lru2_Get_def bind_eq_Some_conv)
  note i = shard_of_SomeD [OF idx]
  let ?c0 = "fst (l2_caches s ! idx)" and ?c1 = "snd (l2_caches s ! idx)"
  from store_wf_shard [OF wf i] have w0: "cache_wf ?c0" and w1: "cache_wf ?c1" by simp_all
  from g idx i obtain n1 st1 e c0 where d: "cache_del key ?c0 = Some (n1, st1, e, c0)"
    by (auto simp: lru2_Get_def rd_Some bind_eq_Some_conv Let_def)
  from cache_del_wf [OF w0 d] have wc0: "cache_wf c0" .
  let ?s1 = "s\<lparr>l2_caches := (l2_caches s)[idx := (c0, ?c1)]\<rparr>"
  have wf1: "store_wf ?s1" using wf i wc0 w1 by (rule store_wf_update)
  have i1: "idx < length (l2_caches ?s1)" using i by simp
  consider (del) b where "lru2_delete key idx ?s1 = Some (b, ev, s')"
    | (put) x c1 where "cache_put key (node_v (the n1)) e (l2_onEvicted ?s1) ?c1 = Some (x, ev, c1)"
        "s' = ?s1\<lparr>l2_caches := (l2_caches ?s1)[idx := (c0, c1)]\<rparr>"
    | (get) n2 st2 where "lru2_get key idx 1 now2 ?s1 = Some (n2, st2, s')"
    | (get_del) n2 st2 s2 b where "lru2_get key idx 1 now2 ?s1 = Some (n2, st2, s2)"
        "lru2_delete key idx s2 = Some (b, ev, s')"
    using g idx i d
    by (auto simp: lru2_Get_def rd_Some bind_eq_Some_conv Let_def split: if_splits)
  then show ?thesis
  proof cases
    case del
    then show ?thesis using wf1 i1 by (rule lru2_delete_wf [rotated 2])
  next
    case put
    from cache_put_wf [OF w1 put(1)] have wc1: "cache_wf c1" .
    have "store_wf (?s1\<lparr>l2_caches := (l2_caches ?s1)[idx := (c0, c1)]\<rparr>)"
      using wf1 i1 wc0 wc1 by (rule store_wf_update)
    then show ?thesis unfolding put(2) .
  next
    case get
    then show ?thesis using wf1 i1 by (rule lru2_get_wf [rotated 2])
  next
    case get_del
    from lru2_get_wf [OF wf1 i1 get_del(1)] have "store_wf s2" .
    moreover from lru2_get_length [OF get_del(1)] i have "idx < length (l2_caches s2)" by simp
    ultimately show ?thesis using get_del(2) by (rule lru2_delete_wf)
  qed
qed

lemma lru2_SetWithExpiration_wf:
  assumes wf: "store_wf s" and g: "lru2_SetWithExpiration key val expiration now s = Some (ev, s')"
  shows "store_wf s'"
proof -
  from g obtain idx where idx: "shard_of s key = Some idx"
    by (auto simp: lru2_SetWithExpiration_def bind_eq_Some_conv Let_def)
  note i = shard_of_SomeD [OF idx]
  from store_wf_shard [OF wf i] have w: "cache_wf (fst (l2_caches s ! idx))"
    "cache_wf (snd (l2_caches s ! idx))" by simp_all
  from g idx i obtain e x c0 where
    p: "cache_put key val e (l2_onEvicted s) (fst (l2_caches s ! idx)) = Some (x, ev, c0)"
    and s': "s' = s\<lparr>l2_caches := (l2_caches s)[idx := (c0, snd (l2_caches s ! idx))]\<rparr>"
    by (auto simp: lru2_SetWithExpiration_def rd_Some bind_eq_Some_conv Let_def)
  from cache_put_wf [OF w(1) p] have "cache_wf c0" .
  with wf i w(2) show ?thesis unfolding s' by (intro store_wf_update)
qed

lemma lru2_Delete_wf:
  assumes wf: "store_wf s" and g: "lru2_Delete key s = Some (b, ev, s')"
  shows "store_wf s'"
proof -
  from g obtain idx where idx: "shard_of s key = Some idx" and d: "lru2_delete key idx s = Some (b, ev, s')"
    by (auto simp: lru2_Delete_def bind_eq_Some_conv)
  from wf shard_of_SomeD [OF idx] d show ?thesis by (rule lru2_delete_wf)
qed

lemma lru2_call_wf:
  assumes "store_wf s" "lru2_call c s = Some (r, ev, s')"
  shows "store_wf s'"
  using assms
  by (cases c)
     (auto simp: bind_eq_Some_conv lru2_Set_def
        dest: lru2_SetWithExpiration_wf lru2_Get_wf lru2_Delete_wf)

lemma lru2_run_wf:
  "store_wf s \<Longrightarrow> lru2_run cs s = Some (rs, evs, s') \<Longrightarrow> store_wf s'"
proof (induction cs arbitrary: s rs evs)
  case Nil
  then show ?case by simp
next
  case (Cons c cs)
  from Cons.prems(2) obtain r ev s1 rs' evs' where
    c: "lru2_call c s = Some (r, ev, s1)" and r: "lru2_run cs s1 = Some (rs', evs', s')"
    by (auto simp: bind_eq_Some_conv)
  from lru2_call_wf [OF Cons.prems(1) c] have "store_wf s1" .
  then show ?case using r by (rule Cons.IH)
qed

lemma Create_wf:
  assumes "unat cap < 65535"
  shows "cache_wf (Create cap :: 'v cache)"
proof -
  have "unat (cap + 1) = unat cap + 1"
    using assms by (simp add: unat_word_ariths)
  then show ?thesis
    using assms by (auto simp: cache_wf_def Create_def links_ok_def list_all_iff)
qed

lemma next_power_of_two_le:
  assumes "0 < n" "n \<le> 2 ^ m"
  shows "next_power_of_two n \<le> 2 ^ m" "0 < next_power_of_two n"
proof -
  from next_power_of_two_spec [OF assms(1)] obtain k where
    k: "next_power_of_two n = 2 ^ k" "n \<le> 2 ^ k" "0 < k \<longrightarrow> 2 ^ (k - 1) < n" by blast
  show "0 < next_power_of_two n" using k(1) by simp
  have "k \<le> m"
  proof (rule ccontr)
    assume "\<not> k \<le> m"
    then have "0 < k" "m \<le> k - 1" by simp_all
    then have "(2::nat) ^ m \<le> 2 ^ (k - 1)" by (intro power_increasing) simp_all
    moreover have "2 ^ (k - 1) < n" using k(3) \<open>0 < k\<close> by simp
    ultimately show False using assms(2) by linarith
  qed
  then show "next_power_of_two n \<le> 2 ^ m" unfolding k(1) by (intro power_increasing) simp_all
qed

lemma mask_store_wf:
  fixes b :: "16 word"
  assumes b: "1 \<le> unat b" "unat b \<le> 2 ^ 15" and c: "cache_wf c0" "cache_wf c1"
  shows "store_wf \<lparr>l2_caches = replicate (unat (maskOfNextPowOf2 b + 1)) (c0, c1),
                   l2_onEvicted = cb, l2_mask = ucast (maskOfNextPowOf2 b)\<rparr>"
proof -
  let ?m = "maskOfNextPowOf2 b"
  let ?M = "ucast ?m :: 32 word"
  from b have pos: "0 < unat b" by simp
  have m: "unat ?m = next_power_of_two (unat b) - 1" using b by (rule maskOfNextPowOf2_eq)
  with next_power_of_two_le [OF pos b(2)] have lt: "unat ?m < 2 ^ 15" by simp
  then have len: "unat (?m + 1) = unat ?m + 1" by (simp add: unat_word_ariths)
  have u: "uint ?M = uint ?m" by (simp add: uint_up_ucast is_up)
  have "uint ?m < 2 ^ 16" using uint_lt2p [of ?m] by simp
  then have "sint ?M = uint ?M" using u by (intro sint_small [of ?M ?M]) simp_all
  with u have s: "sint ?M = int (unat ?m)" by simp
  show ?thesis using c by (simp add: store_wf_def s len list_all_iff)
qed

lemma newLRU2Cache_wf:
  assumes "unat (BucketCount opts) \<le> 2 ^ 15" "unat (CapPerBucket opts) < 65535"
    "unat (Level2Cap opts) < 65535"
  shows "store_wf (newLRU2Cache opts :: 'v lru2Store)"
proof -
  define b where "b = (if BucketCount opts = 0 then 16 else BucketCount opts)"
  define c1 where "c1 = (if CapPerBucket opts = 0 then 1024 else CapPerBucket opts)"
  define c2 where "c2 = (if Level2Cap opts = 0 then 1024 else Level2Cap opts)"
  have eq: "(newLRU2Cache opts :: 'v lru2Store) =
      \<lparr>l2_caches = replicate (unat (maskOfNextPowOf2 b + 1)) (Create c1, Create c2),
       l2_onEvicted = OnEvicted opts, l2_mask = ucast (maskOfNextPowOf2 b)\<rparr>"
    by (simp add: newLRU2Cache_def b_def c1_def c2_def Let_def)
  have b: "1 \<le> unat b" "unat b \<le> 2 ^ 15"
    using assms(1) by (auto simp: b_def unat_gt_0 Suc_le_eq)
  have "unat c1 < 65535" "unat c2 < 65535" using assms(2,3) by (simp_all add: c1_def c2_def)
  then have "cache_wf (Create c1 :: 'v cache)" "cache_wf (Create c2 :: 'v cache)"
    by (simp_all add: Create_wf)
  with b show ?thesis unfolding eq by (rule mask_store_wf)
qed


section \<open>Delete, Set and Get on every well-formed state\<close>

text \<open>
  On every well-formed store \<open>Delete\<close> returns, leaves the key live in neither tier,
  returns true exactly when the key was live in a tier, and calls the callback at most
  once, with the tier-1 value when tier 1 held one and else with the tier-2 value.
\<close>

lemma lru2_Delete_removes_from_both_tiers:
  assumes "store_wf s"
  shows "\<exists>idx ev s'. shard_of s key = Some idx \<and> idx < length (l2_caches s)
     \<and> lru2_Delete key s =
        Some (cache_live (fst (l2_caches s ! idx)) key \<noteq> None
                \<or> cache_live (snd (l2_caches s ! idx)) key \<noteq> None, ev, s')
     \<and> cache_live (fst (l2_caches s' ! idx)) key = None
     \<and> cache_live (snd (l2_caches s' ! idx)) key = None
     \<and> length ev \<le> 1
     \<and> ev = (if l2_onEvicted s then
               (case cache_live (fst (l2_caches s ! idx)) key of
                  Some n1 \<Rightarrow> if node_v n1 \<noteq> None then [(key, node_v n1)]
                     else (case cache_live (snd (l2_caches s ! idx)) key of
                             Some n2 \<Rightarrow> if node_v n2 \<noteq> None then [(key, node_v n2)] else []
                           | None \<Rightarrow> [])
                | None \<Rightarrow>
                    (case cache_live (snd (l2_caches s ! idx)) key of
                       Some n2 \<Rightarrow> if node_v n2 \<noteq> None then [(key, node_v n2)] else []
                     | None \<Rightarrow> []))
             else [])
     \<and> store_wf s'"
proof -
  obtain idx where idx: "shard_of s key = Some idx" "idx < length (l2_caches s)"
    using assms by (rule shard_of_total)
  from lru2_delete_total [OF assms idx(2), of key] obtain ev s' where
    r: "lru2_delete key idx s =
        Some (cache_live (fst (l2_caches s ! idx)) key \<noteq> None
                \<or> cache_live (snd (l2_caches s ! idx)) key \<noteq> None, ev, s')"
    and ev: "ev = (if l2_onEvicted s then
               (case cache_live (fst (l2_caches s ! idx)) key of
                  Some n1 \<Rightarrow> if node_v n1 \<noteq> None then [(key, node_v n1)]
                     else (case cache_live (snd (l2_caches s ! idx)) key of
                             Some n2 \<Rightarrow> if node_v n2 \<noteq> None then [(key, node_v n2)] else []
                           | None \<Rightarrow> [])
                | None \<Rightarrow>
                    (case cache_live (snd (l2_caches s ! idx)) key of
                       Some n2 \<Rightarrow> if node_v n2 \<noteq> None then [(key, node_v n2)] else []
                     | None \<Rightarrow> []))
             else [])"
    and rest: "store_wf s'" "cache_live (fst (l2_caches s' ! idx)) key = None"
      "cache_live (snd (l2_caches s' ! idx)) key = None"
    by blast
  have "length ev \<le> 1" unfolding ev by (simp split: option.splits)
  moreover have "lru2_Delete key s =
        Some (cache_live (fst (l2_caches s ! idx)) key \<noteq> None
                \<or> cache_live (snd (l2_caches s ! idx)) key \<noteq> None, ev, s')"
    using idx(1) r by (simp add: lru2_Delete_def)
  ultimately show ?thesis using idx ev rest by blast
qed

text \<open>
  On every well-formed store where the tier-1 \<open>put\<close> can run, \<open>Set\<close> is
  \<open>SetWithExpiration\<close> with \<open>1e7\<close> ns: the entry it stores expires \<open>10^7\<close> ns after the clock
  reading of the write, a \<open>Get\<close> that reads a clock at or after that returns not-found,
  and an earlier one returns the value when the put into tier 2 can run.
\<close>

lemma lru2_Set_expires_after_ten_ms:
  assumes wf: "store_wf s" and idx: "shard_of s key = Some idx"
    and ready: "put_ready (fst (l2_caches s ! idx)) key"
    and clock: "0 \<le> now" "now < 2 ^ 63 - 10000000"
  shows "lru2_Set key val now s = lru2_SetWithExpiration key val 10000000 now s
     \<and> (\<exists>ev s'. lru2_Set key val now s = Some (ev, s') \<and> store_wf s'
          \<and> cache_live (fst (l2_caches s' ! idx)) key
              = Some \<lparr>node_k = key, node_v = val, node_expireAt = now + 10000000\<rparr>
          \<and> (\<forall>now' now2. now + 10000000 \<le> now' \<longrightarrow>
                (\<exists>ev' s''. lru2_Get key now' now2 s' = Some ((None, False), ev', s'')))
          \<and> (\<forall>now' now2. now' < now + 10000000 \<and> put_ready (snd (l2_caches s' ! idx)) key \<longrightarrow>
                (\<exists>ev' s''. lru2_Get key now' now2 s' = Some ((val, True), ev', s''))))"
proof -
  let ?nd = "\<lparr>node_k = key, node_v = val, node_expireAt = now + 10000000\<rparr>"
  have w: "wrap64 (now + 10000000) = now + 10000000" using clock by (simp add: wrap64_id)
  from lru2_SetWithExpiration_total [OF wf idx ready, of val 10000000 now] w
  obtain ev s' c0 i where
    s: "lru2_SetWithExpiration key val 10000000 now s = Some (ev, s')" "store_wf s'"
      "shard_of s' key = Some idx"
      "l2_caches s' = (l2_caches s)[idx := (c0, snd (l2_caches s ! idx))]"
      "map_of (c_hmap c0) key = Some i" "c_m c0 ! (i - 1) = ?nd"
    by auto
  note j = shard_of_SomeD [OF idx]
  from s(4) j have c0: "fst (l2_caches s' ! idx) = c0" by simp
  from store_wf_shard [OF s(2) shard_of_SomeD [OF s(3)]] c0 have "cache_wf c0" by simp
  from cache_live_Some [OF this, of key ?nd] s(5,6) clock
  have live: "cache_live (fst (l2_caches s' ! idx)) key = Some ?nd" by (simp add: c0)
  have "\<exists>ev' s''. lru2_Get key now' now2 s' = Some ((None, False), ev', s'')"
    if "now + 10000000 \<le> now'" for now' now2
    using lru2_Get_tier1_expired [OF s(2,3) live, of now' now2] that by auto
  moreover have "\<exists>ev' s''. lru2_Get key now' now2 s' = Some ((val, True), ev', s'')"
    if "now' < now + 10000000 \<and> put_ready (snd (l2_caches s' ! idx)) key" for now' now2
    using lru2_Get_tier1_valid [OF s(2,3) live, of now' now2] that by auto
  ultimately show ?thesis using s(1,2) live by (simp add: lru2_Set_def)
qed

text \<open>For every key and state: an entry written with \<open>ttl \<le> 0\<close> is a tombstone as soon as
  it is written, and \<open>Get\<close> does not find it (when tier 2 has no slot for the key).\<close>

lemma lru2_ttl_nonpositive_not_found:
  assumes wf: "store_wf s" and idx: "shard_of s key = Some idx"
    and ready: "put_ready (fst (l2_caches s ! idx)) key"
    and ttl: "ttl \<le> 0"
    and t2: "map_of (c_hmap (snd (l2_caches s ! idx))) key = None"
  shows "\<exists>ev s'. lru2_SetWithExpiration key val ttl now s = Some (ev, s')
     \<and> cache_live (fst (l2_caches s' ! idx)) key = None
     \<and> (\<forall>now' now2. \<exists>s''. lru2_Get key now' now2 s' = Some ((None, False), [], s''))"
proof -
  from lru2_SetWithExpiration_total [OF wf idx ready, of val ttl now] ttl
  obtain ev s' c0 i where
    s: "lru2_SetWithExpiration key val ttl now s = Some (ev, s')" "store_wf s'"
      "shard_of s' key = Some idx"
      "l2_caches s' = (l2_caches s)[idx := (c0, snd (l2_caches s ! idx))]"
      "map_of (c_hmap c0) key = Some i"
      "c_m c0 ! (i - 1) = \<lparr>node_k = key, node_v = val, node_expireAt = 0\<rparr>"
    by auto
  note j = shard_of_SomeD [OF idx]
  from s(4) j have sh: "l2_caches s' ! idx = (c0, snd (l2_caches s ! idx))" by simp
  from store_wf_shard [OF s(2) shard_of_SomeD [OF s(3)]] sh
  have w: "cache_wf c0" "cache_wf (snd (l2_caches s ! idx))" by simp_all
  have dead: "cache_live c0 key = None"
  proof (cases "cache_live c0 key")
    case (Some nd)
    then obtain i' where "map_of (c_hmap c0) key = Some i'" "nd = c_m c0 ! (i' - 1)"
        "0 < node_expireAt nd"
      using cache_live_Some [OF w(1), of key nd] by blast
    with s(5,6) show ?thesis by simp
  qed simp
  have "\<exists>s''. lru2_Get key now' now2 s' = Some ((None, False), [], s'')" for now' now2
  proof -
    from cache_get_total [OF w(2), of key] t2 obtain c1' where
      g: "cache_get key (snd (l2_caches s ! idx)) = Some (None, 0, c1')" by auto
    show ?thesis
      using s(3) shard_of_SomeD [OF s(3)] sh cache_del_dead [OF w(1) dead] g
      by (simp add: lru2_Get_def lru2_get_def rd_Some Let_def)
  qed
  with s(1) dead sh show ?thesis by auto
qed

text \<open>For every key and state: an expired entry that \<open>Get\<close> finds in tier 2 stays live
  there, and no callback is called.\<close>

lemma lru2_Get_tier2_expired:
  assumes wf: "store_wf s" and idx: "shard_of s key = Some idx"
    and t1: "cache_live (fst (l2_caches s ! idx)) key = None"
    and t2: "cache_live (snd (l2_caches s ! idx)) key = Some nd"
    and expired: "node_expireAt nd \<le> now2"
  shows "\<exists>s'. lru2_Get key now now2 s = Some ((None, False), [], s')
     \<and> cache_live (snd (l2_caches s' ! idx)) key = Some nd"
proof -
  note i = shard_of_SomeD [OF idx]
  let ?c0 = "fst (l2_caches s ! idx)" and ?c1 = "snd (l2_caches s ! idx)"
  from store_wf_shard [OF wf i] have w0: "cache_wf ?c0" and w1: "cache_wf ?c1" by simp_all
  from t2 obtain j where j: "map_of (c_hmap ?c1) key = Some j" "nd = c_m ?c1 ! (j - 1)"
    by (auto simp: cache_live_Some [OF w1])
  from cache_get_total [OF w1, of key] j obtain c1' where
    g: "cache_get key ?c1 = Some (Some nd, 1, c1')" "cache_wf c1'" "c_m c1' = c_m ?c1"
      "c_hmap c1' = c_hmap ?c1" by auto
  have "cache_live c1' key = cache_live ?c1 key"
    unfolding cache_live_def g(3,4) ..
  with t2 have live': "cache_live c1' key = Some nd" by simp
  let ?s' = "s\<lparr>l2_caches := (l2_caches s)[idx := (?c0, c1')]\<rparr>"
  have "lru2_Get key now now2 s = Some ((None, False), [], ?s')"
    using idx i cache_del_dead [OF w0 t1] g(1) expired
    by (simp add: lru2_Get_def lru2_get_def rd_Some Let_def)
  moreover have "cache_live (snd (l2_caches ?s' ! idx)) key = Some nd" using i live' by simp
  ultimately show ?thesis by blast
qed

end
